theory Spec2Isabelle
  imports Main "HOL-Library.Word" "HOL-Library.Multiset"
begin

section \<open>Bucket repository of the STK mesh (BucketRepository.cpp)\<close>

text \<open>
  The C++ type \<open>unsigned\<close> is a 32-bit word. Bucket sizes, capacities, slot ordinals and
  entity ranks index arrays; they are natural numbers here and every array access is
  guarded or assumed in range by the theorems that use it.
\<close>

type_synonym u32 = "32 word"

subsection \<open>Errors\<close>

text \<open>
  Every \<open>throw\<close> of the source is a constructor. \<open>UndefinedBehaviour\<close> stands for the
  places where the C++ would read or write outside an array or through a null pointer.
\<close>

datatype error =
    MallocFailed
  | IncompatibleDimensions string u32 u32
  | BadEntityRank
  | DeclareBucketLogic
  | TooManyBuckets
  | DestroyBucketLogic
  | UndefinedBehaviour

subsection \<open>Alignment\<close>

text \<open>
  \<open>align\<close> takes a \<open>size_t\<close> and returns an \<open>unsigned\<close>. Since 16 divides \<open>2 ^ 32\<close>, the
  truncated result is the same whether the argument is computed in 32 or in 64 bits, so
  the function is modelled on 32-bit words.
\<close>

definition align :: "u32 \<Rightarrow> u32" where
  "align nb = (let gap = nb mod 16 in if gap \<noteq> 0 then nb + (16 - gap) else nb)"

subsection \<open>Field restrictions and the dimension of a field on a bucket\<close>

text \<open>
  An \<open>EntityKey\<close> orders by entity rank first and by identifier second; a restriction's
  key holds the entity rank and the part ordinal. The stride array has
  \<open>MaximumFieldDimension\<close> entries.
\<close>

type_synonym entity_key = "nat \<times> u32"

fun entity_key_less :: "entity_key \<Rightarrow> entity_key \<Rightarrow> bool" where
  "entity_key_less (r1, i1) (r2, i2) = (r1 < r2 \<or> (r1 = r2 \<and> i1 < i2))"

record restriction =
  r_key :: entity_key
  r_stride :: "u32 list"

definition ordinal :: "restriction \<Rightarrow> u32" where
  "ordinal r = snd (r_key r)"

definition empty_field_restriction :: restriction where
  "empty_field_restriction = \<lparr> r_key = (0, 0), r_stride = replicate 8 0 \<rparr>"

record field_base =
  f_name :: string
  f_restrictions :: "restriction list"
  f_stride_of :: u32
  f_rank :: nat

text \<open>
  \<open>std::lower_bound\<close> over a range partitioned by the comparison returns the first
  position whose element is not less than the key; the restrictions from that position on
  are what remains of the range.
\<close>

definition restriction_lower_bound :: "restriction list \<Rightarrow> entity_key \<Rightarrow> restriction list" where
  "restriction_lower_bound rs key = dropWhile (\<lambda>r. entity_key_less (r_key r) key) rs"

text \<open>
  The loop of \<open>dimension\<close>: \<open>ibeg\<close> is the rest of the restrictions still to search and
  \<open>dim\<close> is \<open>None\<close> while the result still points to the empty restriction.
\<close>

fun dimension_loop ::
  "string \<Rightarrow> nat \<Rightarrow> u32 list \<Rightarrow> restriction list \<Rightarrow> restriction option
     \<Rightarrow> error + restriction option" where
  "dimension_loop fname etype [] ibeg dim = Inr dim"
| "dimension_loop fname etype (p # ps) ibeg dim =
     (if ibeg = [] then Inr dim
      else
        (case restriction_lower_bound ibeg (etype, p) of
           [] \<Rightarrow> dimension_loop fname etype ps [] dim
         | r # rest \<Rightarrow>
             if r_key r = (etype, p) then
               (let d = (case dim of None \<Rightarrow> r | Some d0 \<Rightarrow> d0) in
                if r_stride r \<noteq> r_stride d
                then Inl (IncompatibleDimensions fname (ordinal r) (ordinal d))
                else dimension_loop fname etype ps (r # rest) (Some d))
             else dimension_loop fname etype ps (r # rest) dim))"

definition dimension :: "field_base \<Rightarrow> nat \<Rightarrow> u32 list \<Rightarrow> error + restriction" where
  "dimension field etype part_ord =
     (case dimension_loop (f_name field) etype part_ord (f_restrictions field) None of
        Inl e \<Rightarrow> Inl e
      | Inr None \<Rightarrow> Inr empty_field_restriction
      | Inr (Some d) \<Rightarrow> Inr d)"

subsection \<open>The field map of a bucket family\<close>

record data_map =
  m_base :: u32
  m_size :: u32
  m_stride :: "u32 list option"

definition stride_at :: "u32 list \<Rightarrow> nat \<Rightarrow> u32" where
  "stride_at st i = (if i < length st then st ! i else 0)"

definition value_size_of :: "field_base \<Rightarrow> restriction \<Rightarrow> u32" where
  "value_size_of field dim =
     (if stride_at (r_stride dim) 0 \<noteq> 0
      then f_stride_of field *
           (if f_rank field \<noteq> 0 then stride_at (r_stride dim) (f_rank field - 1) else 1)
      else 0)"

text \<open>
  The loop over the fields in \<open>declare_bucket\<close>, lines 375 to 400: one entry per field in
  the order of \<open>field_set\<close>, and a last entry whose base is the end of the field data.
\<close>

fun field_map_loop ::
  "u32 \<Rightarrow> nat \<Rightarrow> u32 list \<Rightarrow> field_base list \<Rightarrow> u32 \<Rightarrow> error + data_map list" where
  "field_map_loop cap etype part_ord [] value_offset =
     Inr [\<lparr> m_base = value_offset, m_size = 0, m_stride = None \<rparr>]"
| "field_map_loop cap etype part_ord (field # fs) value_offset =
     (case dimension field etype part_ord of
        Inl e \<Rightarrow> Inl e
      | Inr dim \<Rightarrow>
          (let value_size = value_size_of field dim in
           case field_map_loop cap etype part_ord fs
                  (value_offset + align (value_size * cap)) of
             Inl e \<Rightarrow> Inl e
           | Inr rest \<Rightarrow>
               Inr (\<lparr> m_base = value_offset, m_size = value_size,
                      m_stride = Some (r_stride dim) \<rparr> # rest)))"

text \<open>
  \<open>sizeof_entity_ptr\<close> is \<open>sizeof(Entity*)\<close>, which the platform fixes (4 or 8).
\<close>

definition make_field_map ::
  "u32 \<Rightarrow> u32 \<Rightarrow> nat \<Rightarrow> u32 list \<Rightarrow> field_base list \<Rightarrow> error + data_map list" where
  "make_field_map sizeof_entity_ptr cap etype part_ord field_set =
     field_map_loop cap etype part_ord field_set (align (sizeof_entity_ptr * cap))"

text \<open>
  What the loop of \<open>dimension\<close> computes, stated on the list of the restrictions that
  match one of the bucket's parts, in the order of the restriction list: the first match
  is the result, and the first later match whose stride differs raises the error.
\<close>

definition resolve_matches ::
  "string \<Rightarrow> restriction option \<Rightarrow> restriction list \<Rightarrow> error + restriction option" where
  "resolve_matches fname dim ms =
     (case dim of
        Some d \<Rightarrow>
          (case filter (\<lambda>r. r_stride r \<noteq> r_stride d) ms of
             [] \<Rightarrow> Inr (Some d)
           | r # _ \<Rightarrow> Inl (IncompatibleDimensions fname (ordinal r) (ordinal d)))
      | None \<Rightarrow>
          (case ms of
             [] \<Rightarrow> Inr None
           | d # rest \<Rightarrow>
               (case filter (\<lambda>r. r_stride r \<noteq> r_stride d) rest of
                  [] \<Rightarrow> Inr (Some d)
                | r # _ \<Rightarrow> Inl (IncompatibleDimensions fname (ordinal r) (ordinal d)))))"

definition part_match :: "nat \<Rightarrow> u32 list \<Rightarrow> restriction \<Rightarrow> bool" where
  "part_match etype part_ord r = (\<exists>p \<in> set part_ord. r_key r = (etype, p))"

definition restrictions_sorted :: "restriction list \<Rightarrow> bool" where
  "restrictions_sorted rs = sorted_wrt (\<lambda>a b. entity_key_less (r_key a) (r_key b)) rs"


section \<open>The repository\<close>

subsection \<open>Buckets, entities and the store\<close>

text \<open>
  A bucket pointer is an address of the store; 0 is the null pointer. An entity is
  identified by its key, and \<open>EntityLess\<close> is the order of the keys, so entities are
  natural numbers ordered by \<open>(<)\<close>. The data of all fields of one slot is one value
  of \<open>slot_data\<close>; the repository never looks inside it.

  Modelled from the spec: the classes \<open>Bucket\<close>, \<open>BucketImpl\<close>, \<open>Entity\<close> and
  \<open>EntityRepository\<close> are not among the sources. A bucket has its key, capacity, size,
  one entity pointer and the field data per slot, a pointer to the first bucket of its
  family, and (meaningful in the first bucket of a family) a pointer to the family's last
  bucket. An entity holds a back-reference to its bucket and its ordinal in it.
\<close>

type_synonym entity = nat
type_synonym bucket_ptr = nat
type_synonym slot_data = "nat list"

record bucket =
  b_entity_rank :: nat
  b_key :: "u32 list"
  b_capacity :: nat
  b_size :: nat
  b_entities :: "entity option list"
  b_field_data :: "slot_data list"
  b_field_map :: "data_map list"
  b_first :: bucket_ptr
  b_last :: bucket_ptr

text \<open>
  The calls into the bucket implementation, the entity repository and the relocation
  hook are recorded in a trace, in the order in which the source makes them.
\<close>

datatype event =
    CopyFields bucket_ptr nat bucket_ptr nat
  | ReplaceEntity bucket_ptr nat "entity option"
  | ChangeEntityBucket bucket_ptr entity nat
  | PropagateRelocation entity
  | DecrementSize bucket_ptr

text \<open>
  \<open>mem_avail\<close> is the number of blocks \<open>malloc\<close> can still hand out and \<open>next_addr\<close> the
  address of the next block; \<open>sizeof_entity_ptr\<close> is the platform's \<open>sizeof(Entity*)\<close>.
\<close>

record repo =
  m_bucket_capacity :: nat
  m_buckets :: "bucket_ptr list list"
  heap :: "bucket_ptr \<Rightarrow> bucket option"
  entity_bucket :: "entity \<Rightarrow> bucket_ptr \<times> nat"
  trace :: "event list"
  next_addr :: nat
  mem_avail :: nat
  sizeof_entity_ptr :: u32

text \<open>
  An operation ends normally with a value and the new state, or throws with the state in
  which the exception leaves the repository.
\<close>

datatype 'a outcome = Ok 'a repo | Throw error repo

text \<open>
  Dereferencing a pointer. The theorems below assume that the pointers they follow are
  allocated, as the C++ does.
\<close>

definition bkt :: "repo \<Rightarrow> bucket_ptr \<Rightarrow> bucket" where
  "bkt s b = the (heap s b)"

definition upd :: "repo \<Rightarrow> bucket_ptr \<Rightarrow> (bucket \<Rightarrow> bucket) \<Rightarrow> repo" where
  "upd s b f = s\<lparr> heap := (heap s)(b \<mapsto> f (bkt s b)) \<rparr>"

definition log_event :: "repo \<Rightarrow> event \<Rightarrow> repo" where
  "log_event s e = s\<lparr> trace := trace s @ [e] \<rparr>"

subsection \<open>The bucket implementation, as the repository calls it\<close>

definition replace_entity :: "repo \<Rightarrow> bucket_ptr \<Rightarrow> nat \<Rightarrow> entity option \<Rightarrow> repo" where
  "replace_entity s b i e =
     log_event (upd s b (\<lambda>B. B\<lparr> b_entities := (b_entities B)[i := e] \<rparr>)) (ReplaceEntity b i e)"

definition copy_fields :: "repo \<Rightarrow> bucket_ptr \<Rightarrow> nat \<Rightarrow> bucket_ptr \<Rightarrow> nat \<Rightarrow> repo" where
  "copy_fields s k_dst i_dst k_src i_src =
     log_event
       (upd s k_dst
          (\<lambda>B. B\<lparr> b_field_data := (b_field_data B)[i_dst := b_field_data (bkt s k_src) ! i_src] \<rparr>))
       (CopyFields k_dst i_dst k_src i_src)"

definition decrement_size :: "repo \<Rightarrow> bucket_ptr \<Rightarrow> repo" where
  "decrement_size s b =
     log_event (upd s b (\<lambda>B. B\<lparr> b_size := b_size B - 1 \<rparr>)) (DecrementSize b)"

definition change_entity_bucket :: "repo \<Rightarrow> bucket_ptr \<Rightarrow> entity \<Rightarrow> nat \<Rightarrow> repo" where
  "change_entity_bucket s b e i =
     log_event (s\<lparr> entity_bucket := (entity_bucket s)(e := (b, i)) \<rparr>) (ChangeEntityBucket b e i)"

text \<open>
  \<open>internal_propagate_relocation\<close> rewrites the relation fields of the moved entity
  through \<open>set_field_relations\<close>, which is outside the repository; the call is recorded.
\<close>

definition internal_propagate_relocation :: "repo \<Rightarrow> entity \<Rightarrow> repo" where
  "internal_propagate_relocation s e = log_event s (PropagateRelocation e)"

definition first_bucket_in_family :: "repo \<Rightarrow> bucket_ptr \<Rightarrow> bucket_ptr" where
  "first_bucket_in_family s b = b_first (bkt s b)"

definition get_bucket_family_pointer :: "repo \<Rightarrow> bucket_ptr \<Rightarrow> bucket_ptr" where
  "get_bucket_family_pointer s first = b_last (bkt s first)"

definition last_bucket_in_family :: "repo \<Rightarrow> bucket_ptr \<Rightarrow> bucket_ptr" where
  "last_bucket_in_family s b = get_bucket_family_pointer s (first_bucket_in_family s b)"

definition set_first_bucket_in_family :: "repo \<Rightarrow> bucket_ptr \<Rightarrow> bucket_ptr \<Rightarrow> repo" where
  "set_first_bucket_in_family s b first = upd s b (\<lambda>B. B\<lparr> b_first := first \<rparr>)"

definition set_last_bucket_in_family :: "repo \<Rightarrow> bucket_ptr \<Rightarrow> bucket_ptr \<Rightarrow> repo" where
  "set_last_bucket_in_family s first last_bucket = upd s first (\<lambda>B. B\<lparr> b_last := last_bucket \<rparr>)"

subsection \<open>Bucket keys\<close>

text \<open>
  The key layout of the source: \<open>{ part_count + 1, { part_ordinals }, family_count }\<close>,
  so the family count \<open>key[key[0]]\<close> is the last entry.

  Modelled from the spec: \<open>bucket_key_less\<close>, \<open>bucket_part_equal\<close> and the
  \<open>lower_bound\<close> over a bucket vector are not among the sources. Keys are ordered
  lexicographically, two keys are of one family when they agree up to the family count,
  and \<open>lower_bound\<close> is the position that \<open>std::lower_bound\<close> finds in a vector ordered by
  key: the first bucket whose key is not less than the given key.
\<close>

definition make_key :: "u32 list \<Rightarrow> u32 \<Rightarrow> u32 list" where
  "make_key part_ord family_count = (of_nat (length part_ord) + 1) # part_ord @ [family_count]"

definition family_count :: "u32 list \<Rightarrow> u32" where
  "family_count key = last key"

fun bucket_key_less :: "u32 list \<Rightarrow> u32 list \<Rightarrow> bool" where
  "bucket_key_less [] [] = False"
| "bucket_key_less [] (y # ys) = True"
| "bucket_key_less (x # xs) [] = False"
| "bucket_key_less (x # xs) (y # ys) = (x < y \<or> (x = y \<and> bucket_key_less xs ys))"

definition bucket_part_equal :: "u32 list \<Rightarrow> u32 list \<Rightarrow> bool" where
  "bucket_part_equal lhs rhs = (butlast lhs = butlast rhs)"

definition lower_bound :: "repo \<Rightarrow> bucket_ptr list \<Rightarrow> u32 list \<Rightarrow> nat" where
  "lower_bound s bucket_set key =
     length (takeWhile (\<lambda>b. bucket_key_less (b_key (bkt s b)) key) bucket_set)"

subsection \<open>Allocation\<close>

definition malloc_taken :: "repo \<Rightarrow> repo" where
  "malloc_taken s = s\<lparr> next_addr := Suc (next_addr s), mem_avail := mem_avail s - 1 \<rparr>"

definition local_malloc :: "repo \<Rightarrow> bucket_ptr outcome" where
  "local_malloc s =
     (if mem_avail s = 0 then Throw MallocFailed s else Ok (next_addr s) (malloc_taken s))"

text \<open>The one-argument \<open>destroy_bucket\<close>: the destructor and \<open>std::free\<close>.\<close>

definition free_bucket :: "repo \<Rightarrow> bucket_ptr \<Rightarrow> repo" where
  "free_bucket s b = s\<lparr> heap := (heap s)(b := None), mem_avail := Suc (mem_avail s) \<rparr>"

subsection \<open>declare-bucket\<close>

text \<open>
  Lines 405 to 450: allocate the block, construct the bucket with the key, link it to
  its family and insert it into the bucket vector at \<open>ik\<close>.
\<close>

definition allocate_bucket ::
  "repo \<Rightarrow> nat \<Rightarrow> u32 list \<Rightarrow> data_map list \<Rightarrow> bucket_ptr option \<Rightarrow> nat \<Rightarrow> bucket_ptr outcome" where
  "allocate_bucket s arg_entity_rank key field_map last_bucket ik =
     (case local_malloc s of
        Throw e s' \<Rightarrow> Throw e s'
      | Ok bucket s1 \<Rightarrow>
          (let new_bucket =
                 \<lparr> b_entity_rank = arg_entity_rank, b_key = key,
                   b_capacity = m_bucket_capacity s1, b_size = 0,
                   b_entities = replicate (m_bucket_capacity s1) None,
                   b_field_data = replicate (m_bucket_capacity s1) [],
                   b_field_map = field_map, b_first = 0, b_last = 0 \<rparr>;
               s2 = s1\<lparr> heap := (heap s1)(bucket \<mapsto> new_bucket) \<rparr>;
               first_bucket =
                 (case last_bucket of
                    Some lb \<Rightarrow> first_bucket_in_family s2 lb
                  | None \<Rightarrow> bucket);
               s3 = set_first_bucket_in_family s2 bucket first_bucket;
               s4 = set_last_bucket_in_family s3 first_bucket bucket;
               bucket_set = m_buckets s4 ! arg_entity_rank
           in Ok bucket
                (s4\<lparr> m_buckets := (m_buckets s4)
                       [arg_entity_rank := take ik bucket_set @ bucket # drop ik bucket_set] \<rparr>)))"

text \<open>
  Lines 321 to 329: the position \<open>ik\<close> of the search key, whose family count is the
  largest unsigned value, and the bucket before it when that bucket has the same parts.
\<close>

definition search_position :: "repo \<Rightarrow> nat \<Rightarrow> u32 list \<Rightarrow> nat" where
  "search_position s arg_entity_rank part_ord =
     lower_bound s (m_buckets s ! arg_entity_rank) (make_key part_ord (- 1))"

definition find_last_bucket :: "repo \<Rightarrow> nat \<Rightarrow> u32 list \<Rightarrow> bucket_ptr option" where
  "find_last_bucket s arg_entity_rank part_ord =
     (let bucket_set = m_buckets s ! arg_entity_rank;
          key = make_key part_ord (- 1);
          ik = search_position s arg_entity_rank part_ord;
          bucket_family_exists =
            (ik \<noteq> 0 \<and> bucket_part_equal (b_key (bkt s (bucket_set ! (ik - 1)))) key)
      in if bucket_family_exists then Some (bucket_set ! (ik - 1)) else None)"

definition declare_bucket ::
  "repo \<Rightarrow> nat \<Rightarrow> u32 list \<Rightarrow> field_base list \<Rightarrow> bucket_ptr outcome" where
  "declare_bucket s arg_entity_rank part_ord field_set =
     (if \<not> arg_entity_rank < length (m_buckets s) then Throw BadEntityRank s
      else
        (let ik = search_position s arg_entity_rank part_ord
         in case find_last_bucket s arg_entity_rank part_ord of
              None \<Rightarrow>
                (case local_malloc s of
                   Throw e s' \<Rightarrow> Throw e s'
                 | Ok field_map_block s1 \<Rightarrow>
                     (case make_field_map (sizeof_entity_ptr s1) (of_nat (m_bucket_capacity s1))
                             arg_entity_rank part_ord field_set of
                        Inl e \<Rightarrow> Throw e s1
                      | Inr field_map \<Rightarrow>
                          allocate_bucket s1 arg_entity_rank (make_key part_ord 0) field_map
                            None ik))
            | Some last_bucket \<Rightarrow>
                (let last_count = family_count (b_key (bkt s last_bucket))
                 in if b_size (bkt s last_bucket) = 0 then Throw DeclareBucketLogic s
                    else if b_size (bkt s last_bucket) < b_capacity (bkt s last_bucket)
                    then Ok last_bucket s
                    else if last_count < - 1
                    then allocate_bucket s arg_entity_rank (make_key part_ord (1 + last_count))
                           (b_field_map (bkt s last_bucket)) (Some last_bucket) ik
                    else Throw TooManyBuckets s)))"

subsection \<open>destroy-bucket\<close>

definition destroy_bucket :: "repo \<Rightarrow> nat \<Rightarrow> bucket_ptr \<Rightarrow> unit outcome" where
  "destroy_bucket s entity_rank bucket_to_be_deleted =
     (if \<not> entity_rank < length (m_buckets s) then Throw BadEntityRank s
      else
        (let bucket_set = m_buckets s ! entity_rank;
             first = first_bucket_in_family s bucket_to_be_deleted
         in if b_size (bkt s bucket_to_be_deleted) \<noteq> 0 \<or>
               bucket_to_be_deleted \<noteq> get_bucket_family_pointer s first
            then Throw DestroyBucketLogic s
            else
              (let ik = lower_bound s bucket_set (b_key (bkt s bucket_to_be_deleted))
               in if ik = length bucket_set then Throw DestroyBucketLogic s
                  else if bucket_to_be_deleted \<noteq> bucket_set ! ik then Throw DestroyBucketLogic s
                  else
                    (let erased = take ik bucket_set @ drop (Suc ik) bucket_set;
                         s1 = s\<lparr> m_buckets := (m_buckets s)[entity_rank := erased] \<rparr>
                     in if first \<noteq> bucket_to_be_deleted then
                          (if ik = 0 then Throw DestroyBucketLogic s1
                           else
                             (let s2 = set_last_bucket_in_family s1 first (erased ! (ik - 1))
                              in if b_size (bkt s2 (get_bucket_family_pointer s2 first)) = 0
                                 then Throw DestroyBucketLogic s2
                                 else Ok () (free_bucket s2 bucket_to_be_deleted)))
                        else Ok () (free_bucket s1 bucket_to_be_deleted)))))"

subsection \<open>remove-entity\<close>

text \<open>
  Lines 636 to 642. The first part of \<open>remove_entity\<close> reads the entity of slot
  \<open>last->size() - 1\<close>; with an empty last bucket the unsigned subtraction wraps and the
  read is outside the array, and a null entity pointer cannot be dereferenced.
\<close>

definition remove_entity_tail :: "repo \<Rightarrow> nat \<Rightarrow> bucket_ptr \<Rightarrow> unit outcome" where
  "remove_entity_tail s entity_rank last_bucket =
     (let s1 = decrement_size s last_bucket;
          s2 = replace_entity s1 last_bucket (b_size (bkt s1 last_bucket)) None
      in if b_size (bkt s2 last_bucket) = 0 then destroy_bucket s2 entity_rank last_bucket
         else Ok () s2)"

definition remove_entity :: "repo \<Rightarrow> bucket_ptr \<Rightarrow> nat \<Rightarrow> unit outcome" where
  "remove_entity s k i =
     (let entity_rank = b_entity_rank (bkt s k);
          last_bucket = last_bucket_in_family s k
      in if last_bucket \<noteq> k \<or> b_size (bkt s k) \<noteq> i + 1 then
           (if b_size (bkt s last_bucket) = 0 then Throw UndefinedBehaviour s
            else
              (case b_entities (bkt s last_bucket) ! (b_size (bkt s last_bucket) - 1) of
                 None \<Rightarrow> Throw UndefinedBehaviour s
               | Some entity \<Rightarrow>
                   (let s1 = copy_fields s k i last_bucket (b_size (bkt s last_bucket) - 1);
                        s2 = replace_entity s1 k i (Some entity);
                        s3 = change_entity_bucket s2 k entity i;
                        s4 = internal_propagate_relocation s3 entity
                    in remove_entity_tail s4 entity_rank last_bucket)))
         else remove_entity_tail s entity_rank last_bucket)"

subsection \<open>internal-sort-bucket-entities\<close>

text \<open>
  The slots of a run of buckets in storage order, and the entity pointer of a slot.
\<close>

definition family_slots :: "repo \<Rightarrow> bucket_ptr list \<Rightarrow> (bucket_ptr \<times> nat) list" where
  "family_slots s bs = concat (map (\<lambda>b. map (\<lambda>i. (b, i)) [0..<b_size (bkt s b)]) bs)"

definition slot_entity :: "repo \<Rightarrow> bucket_ptr \<times> nat \<Rightarrow> entity option" where
  "slot_entity s slot = b_entities (bkt s (fst slot)) ! snd slot"

text \<open>
  Moving an entity into a slot, as both moves of the inner loop do it (lines 571 to 573
  and 582 to 584): copy the field data, update the back-reference of the entity, store
  the entity pointer.
\<close>

definition relocate :: "repo \<Rightarrow> bucket_ptr \<times> nat \<Rightarrow> bucket_ptr \<times> nat \<Rightarrow> entity \<Rightarrow> repo" where
  "relocate s dst src e =
     replace_entity
       (change_entity_bucket
          (copy_fields s (fst dst) (snd dst) (fst src) (snd src)) (fst dst) e (snd dst))
       (fst dst) (snd dst) (Some e)"

text \<open>Lines 569 to 574: the current entity of the slot, if any, moves to the vacant slot.\<close>

definition displace :: "repo \<Rightarrow> bucket_ptr \<times> nat \<Rightarrow> bucket_ptr \<times> nat \<Rightarrow> repo" where
  "displace s vacant slot =
     (case slot_entity s slot of Some current \<Rightarrow> relocate s vacant slot current | None \<Rightarrow> s)"

text \<open>
  One pass of the inner loop, lines 565 to 594, at the slot \<open>slot\<close> with the entity
  \<open>target\<close> that the sorted sequence wants there. The position of \<open>target\<close> comes from
  its back-reference; following a back-reference that points outside the store is
  undefined.
\<close>

definition sort_step ::
  "repo \<Rightarrow> bucket_ptr \<times> nat \<Rightarrow> bool \<Rightarrow> bucket_ptr \<times> nat \<Rightarrow> entity
     \<Rightarrow> ((bucket_ptr \<times> nat) \<times> bool) outcome" where
  "sort_step s vacant change_this_family slot target =
     (if slot_entity s slot \<noteq> Some target then
        (let s1 = displace s vacant slot;
             new_vacant = entity_bucket s1 target
         in if heap s1 (fst new_vacant) = None \<or>
               \<not> snd new_vacant < length (b_entities (bkt s1 (fst new_vacant)))
            then Throw UndefinedBehaviour s1
            else
              (let s2 = replace_entity s1 (fst new_vacant) (snd new_vacant) None;
                   s3 = relocate s2 slot new_vacant target
               in Ok (new_vacant, True) (internal_propagate_relocation s3 target)))
      else if change_this_family
      then Ok (vacant, True) (internal_propagate_relocation s target)
      else Ok (vacant, False) s)"

fun sort_slots ::
  "repo \<Rightarrow> bucket_ptr \<times> nat \<Rightarrow> bool \<Rightarrow> ((bucket_ptr \<times> nat) \<times> entity) list
     \<Rightarrow> ((bucket_ptr \<times> nat) \<times> bool) outcome" where
  "sort_slots s vacant change_this_family [] = Ok (vacant, change_this_family) s"
| "sort_slots s vacant change_this_family ((slot, target) # rest) =
     (case sort_step s vacant change_this_family slot target of
        Throw e s' \<Rightarrow> Throw e s'
      | Ok (vacant', change') s' \<Rightarrow> sort_slots s' vacant' change' rest)"

text \<open>
  Lines 535 and 536: \<open>ek\<close> starts at \<open>bk\<close> and ends one past the bucket of the vacant
  slot; it is beyond the vector when that bucket is not found.
\<close>

definition find_family_end :: "bucket_ptr list \<Rightarrow> nat \<Rightarrow> bucket_ptr \<Rightarrow> nat" where
  "find_family_end buckets bk ik_vacant =
     Suc (bk + length (takeWhile (\<lambda>b. b \<noteq> ik_vacant) (drop bk buckets)))"

text \<open>
  Lines 532 to 596 for the family that starts at \<open>bk\<close>, with the vacant slot already
  chosen. The bucket sizes do not change in the loops, so the slots are listed first.
  \<open>std::sort\<close> with \<open>EntityLess\<close> dereferences every pointer it sorts.
\<close>

definition sort_family_body ::
  "repo \<Rightarrow> nat \<Rightarrow> nat \<Rightarrow> bucket_ptr \<Rightarrow> nat \<Rightarrow> nat outcome" where
  "sort_family_body s entity_rank bk ik_vacant ie_vacant =
     (let s1 = replace_entity s ik_vacant ie_vacant None;
          buckets = m_buckets s1 ! entity_rank;
          ek = find_family_end buckets bk ik_vacant
      in if length buckets < ek then Throw UndefinedBehaviour s1
         else
           (let family = take (ek - bk) (drop bk buckets);
                slots = family_slots s1 family;
                occupants = map (slot_entity s1) slots
            in if None \<in> set occupants then Throw UndefinedBehaviour s1
               else
                 (let entities = sort (map the occupants)
                  in case sort_slots s1 (ik_vacant, ie_vacant) False (zip slots entities) of
                       Throw e s' \<Rightarrow> Throw e s'
                     | Ok r s2 \<Rightarrow> Ok ek s2)))"

text \<open>
  One pass of the loop over the families, lines 514 to 602; the result is the new \<open>ek\<close>.
  \<open>all_fields\<close> is \<open>m_mesh.mesh_meta_data().get_fields()\<close>.
\<close>

definition sort_family :: "field_base list \<Rightarrow> repo \<Rightarrow> nat \<Rightarrow> nat \<Rightarrow> nat outcome" where
  "sort_family all_fields s entity_rank bk =
     (let buckets = m_buckets s ! entity_rank;
          ik_vacant = last_bucket_in_family s (buckets ! bk);
          ie_vacant = b_size (bkt s ik_vacant)
      in if b_capacity (bkt s ik_vacant) \<le> ie_vacant then
           (let bucket_key = b_key (bkt s (buckets ! bk));
                part_count = unat (hd bucket_key - 1);
                part_ord = take part_count (tl bucket_key)
            in case declare_bucket s entity_rank part_ord all_fields of
                 Throw e s' \<Rightarrow> Throw e s'
               | Ok b_scratch s1 \<Rightarrow>
                   (case sort_family_body s1 entity_rank bk b_scratch 0 of
                      Throw e s' \<Rightarrow> Throw e s'
                    | Ok ek s2 \<Rightarrow>
                        (case destroy_bucket s2 entity_rank b_scratch of
                           Throw e s' \<Rightarrow> Throw e s'
                         | Ok u s3 \<Rightarrow> Ok (ek - 1) s3)))
         else sort_family_body s entity_rank bk ik_vacant ie_vacant)"

text \<open>
  The loop over the families of one rank may not end on a vector that is not ordered, so
  it takes fuel: the number of passes it may make. \<open>None\<close> is running out of fuel.
\<close>

fun sort_families ::
  "nat \<Rightarrow> field_base list \<Rightarrow> repo \<Rightarrow> nat \<Rightarrow> nat \<Rightarrow> unit outcome option" where
  "sort_families 0 all_fields s entity_rank bk = None"
| "sort_families (Suc fuel) all_fields s entity_rank bk =
     (if bk < length (m_buckets s ! entity_rank) then
        (case sort_family all_fields s entity_rank bk of
           Throw e s' \<Rightarrow> Some (Throw e s')
         | Ok ek s' \<Rightarrow> sort_families fuel all_fields s' entity_rank ek)
      else Some (Ok () s))"

fun sort_ranks ::
  "nat \<Rightarrow> field_base list \<Rightarrow> repo \<Rightarrow> nat list \<Rightarrow> unit outcome option" where
  "sort_ranks fuel all_fields s [] = Some (Ok () s)"
| "sort_ranks fuel all_fields s (entity_rank # ranks) =
     (case sort_families fuel all_fields s entity_rank 0 of
        None \<Rightarrow> None
      | Some (Throw e s') \<Rightarrow> Some (Throw e s')
      | Some (Ok u s') \<Rightarrow> sort_ranks fuel all_fields s' ranks)"

definition internal_sort_bucket_entities ::
  "nat \<Rightarrow> field_base list \<Rightarrow> repo \<Rightarrow> unit outcome option" where
  "internal_sort_bucket_entities fuel all_fields s =
     sort_ranks fuel all_fields s [0..<length (m_buckets s)]"

subsection \<open>Examples\<close>

text \<open>
  Three fields whose slots take 4, 0 and 12 bytes on a bucket of part 1: a scalar of a
  4-byte type, a field without restriction, and a 3-vector of a 4-byte type.
\<close>

definition layout_example_fields :: "field_base list" where
  "layout_example_fields =
     [\<lparr> f_name = ''A'',
         f_restrictions = [\<lparr> r_key = (0, 1), r_stride = [1, 1, 1, 1, 1, 1, 1, 1] \<rparr>],
         f_stride_of = 4, f_rank = 0 \<rparr>,
      \<lparr> f_name = ''B'', f_restrictions = [], f_stride_of = 8, f_rank = 1 \<rparr>,
      \<lparr> f_name = ''C'',
         f_restrictions = [\<lparr> r_key = (0, 1), r_stride = [3, 3, 3, 3, 3, 3, 3, 3] \<rparr>],
         f_stride_of = 4, f_rank = 1 \<rparr>]"

definition layout_example_map :: "data_map list" where
  "layout_example_map =
     [\<lparr> m_base = 64, m_size = 4, m_stride = Some [1, 1, 1, 1, 1, 1, 1, 1] \<rparr>,
      \<lparr> m_base = 96, m_size = 0, m_stride = Some [0, 0, 0, 0, 0, 0, 0, 0] \<rparr>,
      \<lparr> m_base = 96, m_size = 12, m_stride = Some [3, 3, 3, 3, 3, 3, 3, 3] \<rparr>,
      \<lparr> m_base = 192, m_size = 0, m_stride = None \<rparr>]"

definition field_offsets :: "error + data_map list \<Rightarrow> u32 list" where
  "field_offsets res = (case res of Inl e \<Rightarrow> [] | Inr fm \<Rightarrow> map m_base (butlast fm))"

definition field_sizes :: "error + data_map list \<Rightarrow> u32 list" where
  "field_sizes res = (case res of Inl e \<Rightarrow> [] | Inr fm \<Rightarrow> map m_size (butlast fm))"

text \<open>
  A field restricted to dimension 3 on parts 1 and 2 and to dimension 4 on part 3, and
  the same field with dimension 3 on all three parts.
\<close>

definition conflict_example_field :: field_base where
  "conflict_example_field =
     \<lparr> f_name = ''F'',
       f_restrictions =
         [\<lparr> r_key = (0, 1), r_stride = [3, 0, 0, 0, 0, 0, 0, 0] \<rparr>,
          \<lparr> r_key = (0, 2), r_stride = [3, 0, 0, 0, 0, 0, 0, 0] \<rparr>,
          \<lparr> r_key = (0, 3), r_stride = [4, 0, 0, 0, 0, 0, 0, 0] \<rparr>],
       f_stride_of = 8, f_rank = 1 \<rparr>"

definition agreeing_example_field :: field_base where
  "agreeing_example_field =
     \<lparr> f_name = ''G'',
       f_restrictions =
         [\<lparr> r_key = (0, 1), r_stride = [3, 0, 0, 0, 0, 0, 0, 0] \<rparr>,
          \<lparr> r_key = (0, 2), r_stride = [3, 0, 0, 0, 0, 0, 0, 0] \<rparr>,
          \<lparr> r_key = (0, 3), r_stride = [3, 0, 0, 0, 0, 0, 0, 0] \<rparr>],
       f_stride_of = 8, f_rank = 1 \<rparr>"

section \<open>Field layout\<close>

subsection \<open>Alignment and offsets\<close>

lemma unat_align:
  "unat (align nb) =
     (if unat nb mod 16 \<noteq> 0 then (unat nb + (16 - unat nb mod 16)) mod 4294967296
      else unat nb)"
proof -
  have m: "unat (nb mod 16) = unat nb mod 16" by (simp add: unat_mod)
  have lt: "unat nb mod 16 < 16" by simp
  have le: "nb mod 16 \<le> 16" using m lt by (simp add: word_le_nat_alt)
  have s: "unat (16 - nb mod 16) = 16 - unat nb mod 16"
    using le m by (simp add: unat_sub)
  have z: "(nb mod 16 = 0) = (unat nb mod 16 = 0)"
    using m by (metis unat_eq_0)
  show ?thesis
    unfolding align_def Let_def using s z by (simp add: unat_word_ariths)
qed

lemma dvd_16_word_size: "(16::nat) dvd 4294967296"
  by simp

lemma align_16: "16 dvd unat (align nb)"
proof (cases "unat nb mod 16 = 0")
  case True
  then show ?thesis by (simp add: unat_align mod_eq_0_iff_dvd)
next
  case False
  have "16 dvd unat nb + (16 - unat nb mod 16)" by presburger
  then have "16 dvd (unat nb + (16 - unat nb mod 16)) mod 4294967296"
    using dvd_16_word_size by (rule dvd_mod)
  then show ?thesis using False by (simp add: unat_align)
qed

lemma aligned_add:
  fixes a b :: u32
  assumes "16 dvd unat a" and "16 dvd unat b"
  shows "16 dvd unat (a + b)"
proof -
  have "unat (a + b) = (unat a + unat b) mod 4294967296"
    by (simp add: unat_word_ariths)
  moreover have "16 dvd (unat a + unat b) mod 4294967296"
    using assms dvd_16_word_size by (intro dvd_mod dvd_add)
  ultimately show ?thesis by simp
qed

lemma word_le_add_no_overflow:
  fixes a b :: u32
  assumes "unat a + unat b < 4294967296"
  shows "a \<le> a + b"
  using assms by (simp add: no_olen_add_nat)

lemma field_map_loop_length:
  "field_map_loop cap etype part_ord fs off = Inr fm \<Longrightarrow> length fm = Suc (length fs)"
  by (induction fs arbitrary: off fm) (auto simp: Let_def split: sum.splits)

lemma field_map_loop_base0:
  "field_map_loop cap etype part_ord fs off = Inr fm \<Longrightarrow> m_base (fm ! 0) = off"
  by (cases fs) (auto simp: Let_def split: sum.splits)

lemma field_map_loop_step:
  "field_map_loop cap etype part_ord fs off = Inr fm \<Longrightarrow> i < length fs \<Longrightarrow>
   m_base (fm ! Suc i) = m_base (fm ! i) + align (m_size (fm ! i) * cap)"
proof (induction fs arbitrary: off fm i)
  case Nil
  then show ?case by simp
next
  case (Cons f fs)
  from Cons.prems(1) obtain dim rest where
    d: "dimension f etype part_ord = Inr dim" and
    r: "field_map_loop cap etype part_ord fs (off + align (value_size_of f dim * cap)) = Inr rest" and
    fm: "fm = \<lparr> m_base = off, m_size = value_size_of f dim, m_stride = Some (r_stride dim) \<rparr> # rest"
    by (auto simp: Let_def split: sum.splits)
  show ?case
  proof (cases i)
    case 0
    then show ?thesis using fm field_map_loop_base0 [OF r] by simp
  next
    case (Suc j)
    then show ?thesis using Cons.IH [OF r, of j] Cons.prems(2) fm by simp
  qed
qed

lemma field_map_loop_size:
  "field_map_loop cap etype part_ord fs off = Inr fm \<Longrightarrow> i < length fs \<Longrightarrow>
   \<exists>dim. dimension (fs ! i) etype part_ord = Inr dim \<and> m_size (fm ! i) = value_size_of (fs ! i) dim"
proof (induction fs arbitrary: off fm i)
  case Nil
  then show ?case by simp
next
  case (Cons f fs)
  from Cons.prems(1) obtain dim rest where
    d: "dimension f etype part_ord = Inr dim" and
    r: "field_map_loop cap etype part_ord fs (off + align (value_size_of f dim * cap)) = Inr rest" and
    fm: "fm = \<lparr> m_base = off, m_size = value_size_of f dim, m_stride = Some (r_stride dim) \<rparr> # rest"
    by (auto simp: Let_def split: sum.splits)
  show ?case
  proof (cases i)
    case 0
    then show ?thesis using fm d by simp
  next
    case (Suc j)
    then show ?thesis using Cons.IH [OF r, of j] Cons.prems(2) fm by simp
  qed
qed

lemma field_map_loop_aligned:
  "field_map_loop cap etype part_ord fs off = Inr fm \<Longrightarrow> 16 dvd unat off \<Longrightarrow>
   i \<le> length fs \<Longrightarrow> 16 dvd unat (m_base (fm ! i))"
proof (induction i)
  case 0
  then show ?case using field_map_loop_base0 by simp
next
  case (Suc i)
  then show ?case
    using field_map_loop_step [of cap etype part_ord fs off fm i]
    by (simp add: aligned_add align_16)
qed


lemma dimension_loop_empty: "dimension_loop fname etype ps [] dim = Inr dim"
  by (cases ps) simp_all

lemma rm_nil: "resolve_matches fname dim [] = Inr dim"
  by (simp add: resolve_matches_def split: option.splits)

lemma rm_Some_cons:
  "resolve_matches fname (Some d) (r # X) =
     (if r_stride r \<noteq> r_stride d then Inl (IncompatibleDimensions fname (ordinal r) (ordinal d))
      else resolve_matches fname (Some d) X)"
  by (simp add: resolve_matches_def)

lemma rm_None_cons: "resolve_matches fname None (r # X) = resolve_matches fname (Some r) X"
  by (simp add: resolve_matches_def)

lemma ekl_trans: "entity_key_less a b \<Longrightarrow> entity_key_less b c \<Longrightarrow> entity_key_less a c"
  by (cases a; cases b; cases c) auto

lemma ekl_irrefl: "\<not> entity_key_less a a"
  by (cases a) auto

lemma ekl_total: "entity_key_less a b \<or> a = b \<or> entity_key_less b a"
  by (cases a; cases b) auto

lemma lower_bound_filter:
  "restrictions_sorted rs \<Longrightarrow>
   restriction_lower_bound rs k = filter (\<lambda>r. \<not> entity_key_less (r_key r) k) rs"
proof (induction rs)
  case Nil
  then show ?case by (simp add: restriction_lower_bound_def)
next
  case (Cons x xs)
  show ?case
  proof (cases "entity_key_less (r_key x) k")
    case True
    then show ?thesis using Cons by (simp add: restriction_lower_bound_def restrictions_sorted_def)
  next
    case False
    have "\<forall>y \<in> set xs. entity_key_less (r_key x) (r_key y)"
      using Cons.prems by (simp add: restrictions_sorted_def)
    then have "\<forall>y \<in> set xs. \<not> entity_key_less (r_key y) k"
      using False ekl_trans by blast
    then have "filter (\<lambda>r. \<not> entity_key_less (r_key r) k) xs = xs" by simp
    then show ?thesis using False by (simp add: restriction_lower_bound_def)
  qed
qed

lemma lower_bound_sorted:
  "restrictions_sorted rs \<Longrightarrow> restrictions_sorted (restriction_lower_bound rs k)"
  by (simp add: lower_bound_filter) (simp add: restrictions_sorted_def sorted_wrt_filter)


lemma dimension_loop_resolve:
  "restrictions_sorted ibeg \<Longrightarrow> sorted ps \<Longrightarrow>
   dimension_loop fname etype ps ibeg dim =
     resolve_matches fname dim (filter (part_match etype ps) ibeg)"
proof (induction ps arbitrary: ibeg dim)
  case Nil
  then show ?case by (simp add: part_match_def rm_nil)
next
  case (Cons p ps)
  define ib where "ib = restriction_lower_bound ibeg (etype, p)"
  have sps: "sorted ps" and ple: "\<forall>q \<in> set ps. p \<le> q" using Cons.prems(2) by auto
  have ibf: "ib = filter (\<lambda>r. \<not> entity_key_less (r_key r) (etype, p)) ibeg"
    unfolding ib_def using Cons.prems(1) by (rule lower_bound_filter)
  have sib: "restrictions_sorted ib"
    unfolding ib_def using Cons.prems(1) by (rule lower_bound_sorted)
  have nl: "part_match etype (p # ps) r \<Longrightarrow> \<not> entity_key_less (r_key r) (etype, p)" for r
    using ple by (auto simp: part_match_def)
  have F1: "filter (part_match etype (p # ps)) ibeg = filter (part_match etype (p # ps)) ib"
    unfolding ibf filter_filter using nl by (metis (mono_tags, lifting))
  show ?case
  proof (cases "ibeg = []")
    case True
    then show ?thesis by (simp add: rm_nil)
  next
    case ne: False
    show ?thesis
    proof (cases ib)
      case Nil
      then show ?thesis using ne F1 by (simp add: ib_def [symmetric] dimension_loop_empty rm_nil)
    next
      case (Cons r rest)
      have rr: "\<forall>x \<in> set rest. entity_key_less (r_key r) (r_key x)"
        using sib Cons by (simp add: restrictions_sorted_def)
      have rnl: "\<not> entity_key_less (r_key r) (etype, p)"
        using ibf Cons by (metis (mono_tags, lifting) filter_eq_ConsD)
      show ?thesis
      proof (cases "r_key r = (etype, p)")
        case True
        have restne: "\<forall>x \<in> set rest. r_key x \<noteq> (etype, p)"
          using rr True ekl_irrefl by metis
        then have X: "filter (part_match etype (p # ps)) rest = filter (part_match etype ps) rest"
          by (intro filter_cong) (auto simp: part_match_def)
        have ms: "filter (part_match etype (p # ps)) ibeg = r # filter (part_match etype ps) rest"
          using F1 Cons True X by (simp add: part_match_def)
        define d where "d = (case dim of None \<Rightarrow> r | Some d0 \<Rightarrow> d0)"
        show ?thesis
        proof (cases "r_stride r \<noteq> r_stride d")
          case True
          then obtain d0 where dim: "dim = Some d0" and "d = d0"
            by (cases dim) (auto simp: d_def)
          then show ?thesis
            using True ne Cons \<open>r_key r = (etype, p)\<close> ms
            by (simp add: ib_def [symmetric] rm_Some_cons)
        next
          case False
          have loop: "dimension_loop fname etype (p # ps) ibeg dim =
                      dimension_loop fname etype ps (r # rest) (Some d)"
            using False ne Cons \<open>r_key r = (etype, p)\<close>
            by (simp add: ib_def [symmetric] d_def Let_def)
          have IH: "dimension_loop fname etype ps (r # rest) (Some d) =
                    resolve_matches fname (Some d) (filter (part_match etype ps) (r # rest))"
            using Cons.IH [OF _ sps, of "r # rest" "Some d"] sib Cons by simp
          have "resolve_matches fname (Some d) (filter (part_match etype ps) (r # rest)) =
                resolve_matches fname (Some d) (filter (part_match etype ps) rest)"
            using False by (simp add: rm_Some_cons)
          moreover have "resolve_matches fname dim (r # filter (part_match etype ps) rest) =
                resolve_matches fname (Some d) (filter (part_match etype ps) rest)"
            using False by (cases dim) (simp_all add: d_def rm_Some_cons rm_None_cons)
          ultimately show ?thesis using loop IH ms by simp
        qed
      next
        case False
        then have gt: "entity_key_less (etype, p) (r_key r)"
          using rnl ekl_total by metis
        have "\<forall>x \<in> set (r # rest). r_key x \<noteq> (etype, p)"
          using rr gt False ekl_trans ekl_irrefl by (metis set_ConsD)
        then have X: "filter (part_match etype (p # ps)) (r # rest) =
                      filter (part_match etype ps) (r # rest)"
          by (intro filter_cong) (auto simp: part_match_def)
        have loop: "dimension_loop fname etype (p # ps) ibeg dim =
                    dimension_loop fname etype ps (r # rest) dim"
          using False ne Cons by (simp add: ib_def [symmetric])
        have IH: "dimension_loop fname etype ps (r # rest) dim =
                  resolve_matches fname dim (filter (part_match etype ps) (r # rest))"
          using Cons.IH [OF _ sps, of "r # rest" dim] sib Cons by simp
        show ?thesis using loop IH F1 X Cons by simp
      qed
    qed
  qed
qed


lemma dimension_resolve:
  assumes "restrictions_sorted (f_restrictions field)" and "sorted part_ord"
  shows "dimension field etype part_ord =
           (case resolve_matches (f_name field) None
                   (filter (part_match etype part_ord) (f_restrictions field)) of
              Inl e \<Rightarrow> Inl e
            | Inr None \<Rightarrow> Inr empty_field_restriction
            | Inr (Some d) \<Rightarrow> Inr d)"
  by (simp only: dimension_def dimension_loop_resolve [OF assms])

lemma resolve_matches_agree:
  assumes "\<forall>a \<in> set ms. \<forall>b \<in> set ms. r_stride a = r_stride b"
  shows "\<exists>d. resolve_matches fname None ms = Inr d"
proof (cases ms)
  case Nil
  then show ?thesis by (simp add: rm_nil)
next
  case (Cons d rest)
  have dm: "d \<in> set ms" using Cons by simp
  have "\<forall>r \<in> set rest. r_stride r = r_stride d"
  proof
    fix r assume "r \<in> set rest"
    then have "r \<in> set ms" using Cons by simp
    with assms dm show "r_stride r = r_stride d" by blast
  qed
  then have "filter (\<lambda>r. r_stride r \<noteq> r_stride d) rest = []"
    by (simp add: filter_empty_conv)
  then have "resolve_matches fname None (d # rest) = Inr (Some d)"
    by (simp add: resolve_matches_def)
  then show ?thesis using Cons by blast
qed

lemma resolve_matches_conflict:
  assumes "a \<in> set ms" and "b \<in> set ms" and "r_stride a \<noteq> r_stride b"
  shows "\<exists>x \<in> set ms. \<exists>y \<in> set ms. r_stride x \<noteq> r_stride y \<and>
           resolve_matches fname None ms = Inl (IncompatibleDimensions fname (ordinal x) (ordinal y))"
proof (cases ms)
  case Nil
  then show ?thesis using assms by simp
next
  case (Cons d rest)
  have "\<exists>r \<in> set rest. r_stride r \<noteq> r_stride d"
  proof (rule ccontr)
    assume "\<not> (\<exists>r \<in> set rest. r_stride r \<noteq> r_stride d)"
    then have "\<forall>r \<in> set ms. r_stride r = r_stride d" using Cons by auto
    then have "r_stride a = r_stride d" and "r_stride b = r_stride d"
      using assms(1,2) by auto
    then show False using assms(3) by simp
  qed
  then have "filter (\<lambda>r. r_stride r \<noteq> r_stride d) rest \<noteq> []"
    by (simp add: filter_empty_conv)
  then obtain r rs where f: "filter (\<lambda>r. r_stride r \<noteq> r_stride d) rest = r # rs"
    by (cases "filter (\<lambda>r. r_stride r \<noteq> r_stride d) rest") auto
  then have "r \<in> set (filter (\<lambda>r. r_stride r \<noteq> r_stride d) rest)"
    by simp
  then have "r \<in> set rest \<and> r_stride r \<noteq> r_stride d"
    by simp
  moreover have "resolve_matches fname None ms =
                 Inl (IncompatibleDimensions fname (ordinal r) (ordinal d))"
    using Cons f by (simp add: resolve_matches_def)
  ultimately show ?thesis using Cons by auto
qed

lemma dimension_loop_no_match:
  "\<forall>r \<in> set ibeg. \<forall>p \<in> set ps. r_key r \<noteq> (etype, p) \<Longrightarrow>
   dimension_loop fname etype ps ibeg None = Inr None"
proof (induction ps arbitrary: ibeg)
  case Nil
  then show ?case by simp
next
  case (Cons p ps)
  show ?case
  proof (cases "restriction_lower_bound ibeg (etype, p)")
    case Nil
    then show ?thesis using Cons.IH [of "[]"] by simp
  next
    case (Cons r rest)
    then have sub: "set (r # rest) \<subseteq> set ibeg"
      unfolding restriction_lower_bound_def by (metis set_dropWhileD subsetI)
    then have "r_key r \<noteq> (etype, p)" using Cons.prems by auto
    moreover have "dimension_loop fname etype ps (r # rest) None = Inr None"
      using Cons.IH [of "r # rest"] Cons.prems sub by auto
    ultimately show ?thesis using Cons by simp
  qed
qed

lemma dimension_no_match:
  assumes "\<forall>r \<in> set (f_restrictions f). \<forall>p \<in> set ps. r_key r \<noteq> (etype, p)"
  shows "dimension f etype ps = Inr empty_field_restriction"
proof -
  have "dimension_loop (f_name f) etype ps (f_restrictions f) None = Inr None"
    using assms by (rule dimension_loop_no_match)
  then show ?thesis by (simp only: dimension_def sum.case option.case)
qed

lemma stride_at_replicate0: "stride_at (replicate 8 0) 0 = 0"
  by (simp add: stride_at_def)

lemma r_stride_empty: "r_stride empty_field_restriction = replicate 8 0"
  by (simp add: empty_field_restriction_def)

lemma value_size_empty: "value_size_of f empty_field_restriction = 0"
  unfolding value_size_of_def r_stride_empty stride_at_replicate0 by simp


subsection \<open>Field offsets (claim C6)\<close>

text \<open>
  Claim C6, as amended. For every field map that \<open>declare_bucket\<close> builds: the map has
  one entry per field in registration order and a final entry; the first base is the
  aligned size of the array of \<open>capacity\<close> entity pointers; each next base is the
  previous base plus the aligned size of the previous field's whole column, which is its
  slot size times the capacity (in 32-bit arithmetic); every base is a multiple of 16; a
  field with no restriction on any part of the bucket has slot size 0; and a base is not
  below the previous one whenever the sum does not overflow.
\<close>

theorem field_map_layout:
  assumes "make_field_map psz cap etype part_ord field_set = Inr fm"
  shows "length fm = Suc (length field_set)
       \<and> m_base (fm ! 0) = align (psz * cap)
       \<and> (\<forall>i < length field_set.
             m_base (fm ! Suc i) = m_base (fm ! i) + align (m_size (fm ! i) * cap))
       \<and> (\<forall>i \<le> length field_set. 16 dvd unat (m_base (fm ! i)))
       \<and> (\<forall>i < length field_set.
             (\<forall>r \<in> set (f_restrictions (field_set ! i)). \<not> part_match etype part_ord r)
             \<longrightarrow> m_size (fm ! i) = 0)
       \<and> (\<forall>i < length field_set.
             unat (m_base (fm ! i)) + unat (align (m_size (fm ! i) * cap)) < 4294967296
             \<longrightarrow> m_base (fm ! i) \<le> m_base (fm ! Suc i))"
proof -
  have loop: "field_map_loop cap etype part_ord field_set (align (psz * cap)) = Inr fm"
    using assms by (simp add: make_field_map_def)
  have c1: "length fm = Suc (length field_set)"
    using loop by (rule field_map_loop_length)
  have c2: "m_base (fm ! 0) = align (psz * cap)"
    using loop by (rule field_map_loop_base0)
  have c3: "\<forall>i < length field_set.
             m_base (fm ! Suc i) = m_base (fm ! i) + align (m_size (fm ! i) * cap)"
    using field_map_loop_step [OF loop] by blast
  have c4: "\<forall>i \<le> length field_set. 16 dvd unat (m_base (fm ! i))"
    using field_map_loop_aligned [OF loop align_16] by blast
  have c5: "\<forall>i < length field_set.
             (\<forall>r \<in> set (f_restrictions (field_set ! i)). \<not> part_match etype part_ord r)
             \<longrightarrow> m_size (fm ! i) = 0"
  proof (intro allI impI)
    fix i assume i: "i < length field_set"
      and nm: "\<forall>r \<in> set (f_restrictions (field_set ! i)). \<not> part_match etype part_ord r"
    from field_map_loop_size [OF loop i] obtain dim where
      d: "dimension (field_set ! i) etype part_ord = Inr dim" and
      s: "m_size (fm ! i) = value_size_of (field_set ! i) dim" by blast
    have "dimension (field_set ! i) etype part_ord = Inr empty_field_restriction"
      using nm by (intro dimension_no_match) (simp add: part_match_def)
    then have "dim = empty_field_restriction" using d by simp
    then show "m_size (fm ! i) = 0" using s by (simp add: value_size_empty)
  qed
  have c6: "\<forall>i < length field_set.
             unat (m_base (fm ! i)) + unat (align (m_size (fm ! i) * cap)) < 4294967296
             \<longrightarrow> m_base (fm ! i) \<le> m_base (fm ! Suc i)"
    using c3 word_le_add_no_overflow by simp
  show ?thesis using c1 c2 c3 c4 c5 c6 by blast
qed

theorem field_map_layout_witness:
  "make_field_map 8 8 0 [1] layout_example_fields = Inr layout_example_map
   \<and> length layout_example_map = Suc (length layout_example_fields)
   \<and> m_base (layout_example_map ! 0) = align (8 * 8)
   \<and> m_base (layout_example_map ! Suc 1) =
       m_base (layout_example_map ! 1) + align (m_size (layout_example_map ! 1) * 8)
   \<and> 16 dvd unat (m_base (layout_example_map ! 2))
   \<and> m_size (layout_example_map ! 1) = 0
   \<and> m_base (layout_example_map ! 1) \<le> m_base (layout_example_map ! Suc 1)"
proof -
  have e: "make_field_map 8 8 0 [1] layout_example_fields = Inr layout_example_map"
    by code_simp
  have len: "length layout_example_fields = 3" by code_simp
  have l1: "1 < length layout_example_fields" and l2: "2 \<le> length layout_example_fields"
    using len by simp_all
  have nm: "\<forall>r \<in> set (f_restrictions (layout_example_fields ! 1)). \<not> part_match 0 [1] r"
    by code_simp
  have no: "unat (m_base (layout_example_map ! 1)) +
            unat (align (m_size (layout_example_map ! 1) * 8)) < 4294967296"
    by (simp add: layout_example_map_def unat_align)
  note t = field_map_layout [OF e]
  have c1: "length layout_example_map = Suc (length layout_example_fields)"
    using t by blast
  have c2: "m_base (layout_example_map ! 0) = align (8 * 8)"
    using t by blast
  have c3: "\<forall>i < length layout_example_fields. m_base (layout_example_map ! Suc i) =
       m_base (layout_example_map ! i) + align (m_size (layout_example_map ! i) * 8)"
    using t by blast
  have c4: "\<forall>i \<le> length layout_example_fields. 16 dvd unat (m_base (layout_example_map ! i))"
    using t by blast
  have c5: "\<forall>i < length layout_example_fields.
       (\<forall>r \<in> set (f_restrictions (layout_example_fields ! i)). \<not> part_match 0 [1] r)
       \<longrightarrow> m_size (layout_example_map ! i) = 0"
    using t by blast
  have c6: "\<forall>i < length layout_example_fields.
       unat (m_base (layout_example_map ! i)) +
       unat (align (m_size (layout_example_map ! i) * 8)) < 4294967296
       \<longrightarrow> m_base (layout_example_map ! i) \<le> m_base (layout_example_map ! Suc i)"
    using t by blast
  show ?thesis
    using e c1 c2 c3 [rule_format, OF l1] c4 [rule_format, OF l2]
      c5 [rule_format, OF l1 nm [rule_format]] c6 [rule_format, OF l1 no]
    by (intro conjI)
qed

text \<open>
  Claim C6 as stated fails on the fields of sizes 4, 0 and 12 with capacity 8 and 8-byte
  pointers: the offsets are 64, 96 and 96. They are not strictly increasing, because a
  field of size 0 takes no room, and the second offset is not the first plus the aligned
  slot size (64 + 16), because the source multiplies the slot size by the capacity before
  it rounds up.
\<close>

theorem field_map_offsets_counterexample:
  "field_sizes (make_field_map 8 8 0 [1] layout_example_fields) = [4, 0, 12]
   \<and> field_offsets (make_field_map 8 8 0 [1] layout_example_fields) = [64, 96, 96]
   \<and> \<not> sorted_wrt (<) (field_offsets (make_field_map 8 8 0 [1] layout_example_fields))
   \<and> field_offsets (make_field_map 8 8 0 [1] layout_example_fields) ! 1 \<noteq>
       field_offsets (make_field_map 8 8 0 [1] layout_example_fields) ! 0 + align 4"
proof -
  have o: "field_offsets (make_field_map 8 8 0 [1] layout_example_fields) = [64, 96, 96]"
    by code_simp
  have s: "field_sizes (make_field_map 8 8 0 [1] layout_example_fields) = [4, 0, 12]"
    by code_simp
  have a: "align 4 = 16" by code_simp
  show ?thesis unfolding o s a by simp
qed


subsection \<open>Conflicting restrictions (claim C5)\<close>

text \<open>
  Claim C5. The restrictions of a field are kept sorted by key without repeated keys
  (the source searches them with \<open>std::lower_bound\<close>) and the part ordinals of a bucket
  are sorted. Then: if two restrictions that match parts of the bucket have different
  strides, \<open>dimension\<close> fails with an error that holds the field's name and the ordinals
  of two matching restrictions whose strides differ; if all matching restrictions have
  the same stride, \<open>dimension\<close> returns a restriction.
\<close>

theorem dimension_conflict_detection:
  assumes "restrictions_sorted (f_restrictions field)" and "sorted part_ord"
  shows "((\<exists>a \<in> set (f_restrictions field). \<exists>b \<in> set (f_restrictions field).
             part_match etype part_ord a \<and> part_match etype part_ord b \<and>
             r_stride a \<noteq> r_stride b)
          \<longrightarrow> (\<exists>x \<in> set (f_restrictions field). \<exists>y \<in> set (f_restrictions field).
                 part_match etype part_ord x \<and> part_match etype part_ord y \<and>
                 r_stride x \<noteq> r_stride y \<and>
                 dimension field etype part_ord =
                   Inl (IncompatibleDimensions (f_name field) (ordinal x) (ordinal y))))
       \<and> ((\<forall>a \<in> set (f_restrictions field). \<forall>b \<in> set (f_restrictions field).
             part_match etype part_ord a \<and> part_match etype part_ord b
             \<longrightarrow> r_stride a = r_stride b)
          \<longrightarrow> (\<exists>d. dimension field etype part_ord = Inr d))"
proof (intro conjI impI)
  define ms where "ms = filter (part_match etype part_ord) (f_restrictions field)"
  have dim: "dimension field etype part_ord =
           (case resolve_matches (f_name field) None ms of
              Inl e \<Rightarrow> Inl e
            | Inr None \<Rightarrow> Inr empty_field_restriction
            | Inr (Some d) \<Rightarrow> Inr d)"
    unfolding ms_def using assms by (rule dimension_resolve)
  have mem: "r \<in> set ms \<longleftrightarrow> r \<in> set (f_restrictions field) \<and> part_match etype part_ord r" for r
    by (simp add: ms_def)
  {
    assume "\<exists>a \<in> set (f_restrictions field). \<exists>b \<in> set (f_restrictions field).
             part_match etype part_ord a \<and> part_match etype part_ord b \<and>
             r_stride a \<noteq> r_stride b"
    then obtain a b where "a \<in> set ms" and "b \<in> set ms" and "r_stride a \<noteq> r_stride b"
      using mem by blast
    from resolve_matches_conflict [OF this, of "f_name field"]
    obtain x y where x: "x \<in> set ms" and y: "y \<in> set ms" and ne: "r_stride x \<noteq> r_stride y"
      and r: "resolve_matches (f_name field) None ms =
              Inl (IncompatibleDimensions (f_name field) (ordinal x) (ordinal y))"
      by blast
    have "dimension field etype part_ord =
          Inl (IncompatibleDimensions (f_name field) (ordinal x) (ordinal y))"
      unfolding dim r by simp
    then show "\<exists>x \<in> set (f_restrictions field). \<exists>y \<in> set (f_restrictions field).
                 part_match etype part_ord x \<and> part_match etype part_ord y \<and>
                 r_stride x \<noteq> r_stride y \<and>
                 dimension field etype part_ord =
                   Inl (IncompatibleDimensions (f_name field) (ordinal x) (ordinal y))"
      using x y ne mem by blast
  }
  {
    assume "\<forall>a \<in> set (f_restrictions field). \<forall>b \<in> set (f_restrictions field).
             part_match etype part_ord a \<and> part_match etype part_ord b
             \<longrightarrow> r_stride a = r_stride b"
    then have "\<forall>a \<in> set ms. \<forall>b \<in> set ms. r_stride a = r_stride b"
      using mem by blast
    from resolve_matches_agree [OF this, of "f_name field"]
    obtain d where r: "resolve_matches (f_name field) None ms = Inr d" by blast
    show "\<exists>d. dimension field etype part_ord = Inr d"
      unfolding dim r by (cases d) simp_all
  }
qed

theorem dimension_conflict_detection_witness:
  "restrictions_sorted (f_restrictions conflict_example_field)
   \<and> sorted [1, 2, 3 :: u32]
   \<and> (\<exists>x \<in> set (f_restrictions conflict_example_field).
       \<exists>y \<in> set (f_restrictions conflict_example_field).
         part_match 0 [1, 2, 3] x \<and> part_match 0 [1, 2, 3] y \<and>
         r_stride x \<noteq> r_stride y \<and>
         dimension conflict_example_field 0 [1, 2, 3] =
           Inl (IncompatibleDimensions (f_name conflict_example_field) (ordinal x) (ordinal y)))
   \<and> dimension conflict_example_field 0 [1, 2, 3] = Inl (IncompatibleDimensions ''F'' 3 1)
   \<and> restrictions_sorted (f_restrictions agreeing_example_field)
   \<and> (\<exists>d. dimension agreeing_example_field 0 [1, 2, 3] = Inr d)"
proof -
  have s1: "restrictions_sorted (f_restrictions conflict_example_field)" by code_simp
  have s2: "restrictions_sorted (f_restrictions agreeing_example_field)" by code_simp
  have sp: "sorted [1, 2, 3 :: u32]" by simp
  have c: "\<exists>a \<in> set (f_restrictions conflict_example_field).
           \<exists>b \<in> set (f_restrictions conflict_example_field).
             part_match 0 [1, 2, 3] a \<and> part_match 0 [1, 2, 3] b \<and> r_stride a \<noteq> r_stride b"
    by code_simp
  have a: "\<forall>a \<in> set (f_restrictions agreeing_example_field).
           \<forall>b \<in> set (f_restrictions agreeing_example_field).
             part_match 0 [1, 2, 3] a \<and> part_match 0 [1, 2, 3] b \<longrightarrow> r_stride a = r_stride b"
    by code_simp
  have v: "dimension conflict_example_field 0 [1, 2, 3] = Inl (IncompatibleDimensions ''F'' 3 1)"
    by code_simp
  note t1 = dimension_conflict_detection [OF s1 sp, of 0, THEN conjunct1, THEN mp, OF c]
  note t2 = dimension_conflict_detection [OF s2 sp, of 0, THEN conjunct2, THEN mp, OF a]
  show ?thesis using s1 s2 sp t1 t2 v by (intro conjI)
qed

section \<open>Basic facts about the store\<close>

named_theorems repo_simps

lemma bkt_upd [repo_simps]:
  "bkt (upd s b f) b' = (if b' = b then f (bkt s b) else bkt s b')"
  by (simp add: bkt_def upd_def)

lemma heap_upd [repo_simps]: "heap (upd s b f) = (heap s)(b \<mapsto> f (bkt s b))"
  by (simp add: upd_def)

lemma upd_fields [repo_simps]:
  "m_buckets (upd s b f) = m_buckets s"
  "m_bucket_capacity (upd s b f) = m_bucket_capacity s"
  "entity_bucket (upd s b f) = entity_bucket s"
  "trace (upd s b f) = trace s"
  "next_addr (upd s b f) = next_addr s"
  "mem_avail (upd s b f) = mem_avail s"
  "sizeof_entity_ptr (upd s b f) = sizeof_entity_ptr s"
  by (simp_all add: upd_def)

lemma log_event_fields [repo_simps]:
  "m_buckets (log_event s e) = m_buckets s"
  "m_bucket_capacity (log_event s e) = m_bucket_capacity s"
  "entity_bucket (log_event s e) = entity_bucket s"
  "heap (log_event s e) = heap s"
  "trace (log_event s e) = trace s @ [e]"
  "next_addr (log_event s e) = next_addr s"
  "mem_avail (log_event s e) = mem_avail s"
  "sizeof_entity_ptr (log_event s e) = sizeof_entity_ptr s"
  "bkt (log_event s e) b = bkt s b"
  by (simp_all add: log_event_def bkt_def)

lemma bkt_record_upd [repo_simps]:
  "bkt (s\<lparr> m_buckets := bs \<rparr>) b = bkt s b"
  "bkt (s\<lparr> heap := h \<rparr>) b = the (h b)"
  "bkt (malloc_taken s) b = bkt s b"
  by (simp_all add: bkt_def malloc_taken_def)

lemma malloc_taken_fields [repo_simps]:
  "m_buckets (malloc_taken s) = m_buckets s"
  "m_bucket_capacity (malloc_taken s) = m_bucket_capacity s"
  "entity_bucket (malloc_taken s) = entity_bucket s"
  "heap (malloc_taken s) = heap s"
  "trace (malloc_taken s) = trace s"
  "next_addr (malloc_taken s) = Suc (next_addr s)"
  "mem_avail (malloc_taken s) = mem_avail s - 1"
  "sizeof_entity_ptr (malloc_taken s) = sizeof_entity_ptr s"
  by (simp_all add: malloc_taken_def)

lemma local_malloc_cases:
  "local_malloc s = Throw e s' \<longleftrightarrow> mem_avail s = 0 \<and> e = MallocFailed \<and> s' = s"
  "local_malloc s = Ok p s1 \<longleftrightarrow> mem_avail s \<noteq> 0 \<and> p = next_addr s \<and> s1 = malloc_taken s"
  by (auto simp: local_malloc_def)

text \<open>The new bucket after \<open>allocate_bucket\<close>.\<close>

lemma allocate_bucket_Ok:
  assumes "allocate_bucket s r key fm lb ik = Ok b s'"
  shows "b = next_addr s \<and> mem_avail s \<noteq> 0
       \<and> b_size (bkt s' b) = 0 \<and> b_capacity (bkt s' b) = m_bucket_capacity s
       \<and> b_key (bkt s' b) = key"
  using assms
  by (auto simp: allocate_bucket_def local_malloc_def Let_def repo_simps
      set_first_bucket_in_family_def set_last_bucket_in_family_def
      split: if_splits option.splits)

lemma allocate_bucket_Throw:
  "allocate_bucket s r key fm lb ik = Throw e s' \<longleftrightarrow> mem_avail s = 0 \<and> e = MallocFailed \<and> s' = s"
  by (auto simp: allocate_bucket_def local_malloc_def Let_def)

section \<open>Spare capacity of the declared bucket (claim C10)\<close>

text \<open>A repository with bucket capacity 0 and one entity rank, before any bucket exists.\<close>

definition zero_capacity_repo :: repo where
  "zero_capacity_repo =
     \<lparr> m_bucket_capacity = 0, m_buckets = [[]], heap = Map.empty,
       entity_bucket = (\<lambda>e. (0, 0)), trace = [], next_addr = 1, mem_avail = 4,
       sizeof_entity_ptr = 8 \<rparr>"

text \<open>The same repository with bucket capacity 2.\<close>

definition empty_repo :: repo where
  "empty_repo = zero_capacity_repo\<lparr> m_bucket_capacity := 2 \<rparr>"

fun returned_size :: "bucket_ptr outcome \<Rightarrow> nat option" where
  "returned_size (Ok b s) = Some (b_size (bkt s b))"
| "returned_size (Throw e s) = None"

fun returned_capacity :: "bucket_ptr outcome \<Rightarrow> nat option" where
  "returned_capacity (Ok b s) = Some (b_capacity (bkt s b))"
| "returned_capacity (Throw e s) = None"

lemma declare_bucket_new_family:
  assumes "find_last_bucket s r part_ord = None" and "r < length (m_buckets s)"
  shows "declare_bucket s r part_ord fs =
     (if mem_avail s = 0 then Throw MallocFailed s
      else
        (case make_field_map (sizeof_entity_ptr s) (of_nat (m_bucket_capacity s)) r part_ord fs of
           Inl e \<Rightarrow> Throw e (malloc_taken s)
         | Inr fm \<Rightarrow>
             allocate_bucket (malloc_taken s) r (make_key part_ord 0) fm None
               (search_position s r part_ord)))"
  using assms by (simp add: declare_bucket_def local_malloc_def Let_def repo_simps)

lemma declare_bucket_existing_family:
  assumes "find_last_bucket s r part_ord = Some lb" and "r < length (m_buckets s)"
  shows "declare_bucket s r part_ord fs =
     (if b_size (bkt s lb) = 0 then Throw DeclareBucketLogic s
      else if b_size (bkt s lb) < b_capacity (bkt s lb) then Ok lb s
      else if family_count (b_key (bkt s lb)) < - 1
      then allocate_bucket s r (make_key part_ord (1 + family_count (b_key (bkt s lb))))
             (b_field_map (bkt s lb)) (Some lb) (search_position s r part_ord)
      else Throw TooManyBuckets s)"
  using assms by (simp add: declare_bucket_def Let_def)

lemma declare_bucket_bad_rank:
  "\<not> r < length (m_buckets s) \<Longrightarrow> declare_bucket s r part_ord fs = Throw BadEntityRank s"
  by (simp add: declare_bucket_def)

lemma declare_bucket_Ok_cases:
  assumes "declare_bucket s r part_ord fs = Ok b s'"
  shows "(find_last_bucket s r part_ord = Some b \<and> s' = s \<and>
          b_size (bkt s b) < b_capacity (bkt s b)) \<or>
         (b_size (bkt s' b) = 0 \<and> b_capacity (bkt s' b) = m_bucket_capacity s)"
proof -
  have r: "r < length (m_buckets s)"
    using assms declare_bucket_bad_rank [of r s part_ord fs] by auto
  show ?thesis
  proof (cases "find_last_bucket s r part_ord")
    case None
    from assms obtain fm where
      a: "allocate_bucket (malloc_taken s) r (make_key part_ord 0) fm None
            (search_position s r part_ord) = Ok b s'"
      unfolding declare_bucket_new_family [OF None r]
      by (auto split: if_splits sum.splits)
    show ?thesis using allocate_bucket_Ok [OF a] by (auto simp: repo_simps)
  next
    case (Some lb)
    show ?thesis
    proof (cases "b_size (bkt s lb) < b_capacity (bkt s lb)")
      case True
      then show ?thesis using assms Some
        unfolding declare_bucket_existing_family [OF Some r]
        by (auto split: if_splits)
    next
      case False
      then have a: "allocate_bucket s r (make_key part_ord (1 + family_count (b_key (bkt s lb))))
                  (b_field_map (bkt s lb)) (Some lb) (search_position s r part_ord) = Ok b s'"
        using assms unfolding declare_bucket_existing_family [OF Some r]
        by (auto split: if_splits)
      show ?thesis using allocate_bucket_Ok [OF a] by auto
    qed
  qed
qed

text \<open>
  Claim C10, as amended: in a repository whose bucket capacity is not 0, the bucket that
  a successful \<open>declare_bucket\<close> returns has a size below its capacity, and it is empty
  when no bucket of the family existed.
\<close>

theorem declare_bucket_spare_capacity:
  assumes "declare_bucket s arg_entity_rank part_ord field_set = Ok b s'"
    and "0 < m_bucket_capacity s"
  shows "b_size (bkt s' b) < b_capacity (bkt s' b)
       \<and> (find_last_bucket s arg_entity_rank part_ord = None \<longrightarrow> b_size (bkt s' b) = 0)"
  using declare_bucket_Ok_cases [OF assms(1)] assms(2) by auto

theorem declare_bucket_spare_capacity_witness:
  "0 < m_bucket_capacity empty_repo
   \<and> find_last_bucket empty_repo 0 [] = None
   \<and> (\<exists>b s'. declare_bucket empty_repo 0 [] [] = Ok b s' \<and>
         b_size (bkt s' b) < b_capacity (bkt s' b) \<and> b_size (bkt s' b) = 0)"
proof -
  have c: "0 < m_bucket_capacity empty_repo" by code_simp
  have n: "find_last_bucket empty_repo 0 [] = None" by code_simp
  have "returned_size (declare_bucket empty_repo 0 [] []) = Some 0" by code_simp
  then obtain b s' where d: "declare_bucket empty_repo 0 [] [] = Ok b s'"
    by (cases "declare_bucket empty_repo 0 [] []") simp_all
  show ?thesis using declare_bucket_spare_capacity [OF d c] c n d by blast
qed

text \<open>
  Claim C10 as stated fails in a repository constructed with bucket capacity 0: the call
  succeeds and returns a bucket of size 0 and capacity 0, which has no room for an
  entity.
\<close>

theorem declare_bucket_spare_capacity_counterexample:
  "returned_size (declare_bucket zero_capacity_repo 0 [] []) = Some 0
   \<and> returned_capacity (declare_bucket zero_capacity_repo 0 [] []) = Some 0"
  by code_simp

section \<open>The order of bucket keys\<close>

definition key_ok :: "u32 list \<Rightarrow> bool" where
  "key_ok key = (2 \<le> length key \<and> unat (hd key) = length key - 1)"

lemma bkl_irrefl: "\<not> bucket_key_less a a"
  by (induction a) auto

lemma bkl_trans: "bucket_key_less a b \<Longrightarrow> bucket_key_less b c \<Longrightarrow> bucket_key_less a c"
proof (induction a b arbitrary: c rule: bucket_key_less.induct)
  case (2 y ys)
  then show ?case by (cases c) auto
next
  case (4 x xs y ys)
  then show ?case by (cases c) auto
qed auto

lemma bkl_total: "bucket_key_less a b \<or> a = b \<or> bucket_key_less b a"
  by (induction a b rule: bucket_key_less.induct) auto

lemma bkl_asym: "bucket_key_less a b \<Longrightarrow> \<not> bucket_key_less b a"
  using bkl_trans bkl_irrefl by blast

lemma bkl_same_parts: "bucket_key_less (p @ [c]) (p @ [d]) \<longleftrightarrow> c < d"
  by (induction p) auto

lemma bkl_hd: "bucket_key_less (x # xs) (y # ys) \<Longrightarrow> x \<le> y"
  by auto

lemma key_split: "key \<noteq> [] \<Longrightarrow> key = butlast key @ [family_count key]"
  by (simp add: family_count_def)

lemma same_length_between:
  "length x = length a \<Longrightarrow> length b = length a \<Longrightarrow> butlast a = butlast b \<Longrightarrow>
   \<not> bucket_key_less x a \<Longrightarrow> \<not> bucket_key_less b x \<Longrightarrow> butlast x = butlast a"
proof (induction a arbitrary: x b)
  case Nil
  then show ?case by simp
next
  case (Cons a0 as)
  obtain x0 xs where x: "x = x0 # xs" using Cons.prems(1) by (cases x) auto
  obtain b0 bs where b: "b = b0 # bs" using Cons.prems(2) by (cases b) auto
  have lx: "length xs = length as" and lb: "length bs = length as"
    using Cons.prems(1,2) x b by simp_all
  show ?case
  proof (cases "as = []")
    case True
    then have "xs = []" using lx by simp
    then show ?thesis using True x by simp
  next
    case False
    then have ne: "bs \<noteq> []" "xs \<noteq> []" using lx lb by auto
    have "a0 # butlast as = b0 # butlast bs"
      using Cons.prems(3) b False ne by simp
    then have eq0: "a0 = b0" and eqb: "butlast as = butlast bs" by simp_all
    have n1: "\<not> x0 < a0" and n2: "x0 = a0 \<longrightarrow> \<not> bucket_key_less xs as"
      using Cons.prems(4) x by simp_all
    have n3: "\<not> b0 < x0" and n4: "b0 = x0 \<longrightarrow> \<not> bucket_key_less bs xs"
      using Cons.prems(5) x b by simp_all
    have x0: "x0 = a0" using n1 n3 eq0 by simp
    have "butlast xs = butlast as"
      using Cons.IH [OF lx lb eqb] n2 n4 x0 eq0 by simp
    then show ?thesis using x x0 False ne by simp
  qed
qed

lemma key_between:
  assumes "key_ok a" and "key_ok x" and "key_ok b" and "butlast a = butlast b"
    and "\<not> bucket_key_less x a" and "\<not> bucket_key_less b x"
  shows "butlast x = butlast a"
proof -
  obtain a0 as x0 xs b0 bs where a: "a = a0 # as" and x: "x = x0 # xs" and b: "b = b0 # bs"
    using assms(1-3) by (cases a; cases x; cases b) (auto simp: key_ok_def)
  have "as \<noteq> []" "bs \<noteq> []" using assms(1,3) a b by (auto simp: key_ok_def)
  then have "a0 = b0" using assms(4) a b by simp
  then have "x0 = a0" using assms(5,6) a x b by auto
  then have "length x = length a" "length b = length a"
    using assms(1-3) a x b \<open>a0 = b0\<close> by (auto simp: key_ok_def)
  then show ?thesis using same_length_between assms(4-6) by blast
qed

lemma make_key_parts: "butlast (make_key p c) = (of_nat (length p) + 1) # p"
  by (simp add: make_key_def butlast_append)

lemma make_key_count: "family_count (make_key p c) = c"
  by (simp add: make_key_def family_count_def)

lemma make_key_part_equal: "bucket_part_equal (make_key p c) (make_key p d)"
  by (simp add: bucket_part_equal_def make_key_parts)

lemma make_key_less: "bucket_key_less (make_key p c) (make_key p d) \<longleftrightarrow> c < d"
proof -
  have "make_key p c = ((of_nat (length p) + 1) # p) @ [c]"
       "make_key p d = ((of_nat (length p) + 1) # p) @ [d]"
    by (simp_all add: make_key_def)
  then show ?thesis by (simp only: bkl_same_parts)
qed

lemma unat_length_plus1:
  assumes "n < 4294967295"
  shows "unat (of_nat n + 1 :: u32) = Suc n"
proof -
  have "(of_nat n + 1 :: u32) = of_nat (Suc n)" by simp
  then have "unat (of_nat n + 1 :: u32) = Suc n mod 2 ^ 32"
    by (simp only: unat_of_nat) simp
  then show ?thesis using assms by simp
qed

lemma make_key_ok: "length p < 4294967295 \<Longrightarrow> key_ok (make_key p c)"
  by (simp add: key_ok_def make_key_def unat_length_plus1)

section \<open>The invariants of the repository\<close>

text \<open>
  The ordering invariant: the bucket vector of every entity rank is strictly increasing
  in the order of the bucket keys.
\<close>

definition keys_sorted :: "repo \<Rightarrow> bucket_ptr list \<Rightarrow> bool" where
  "keys_sorted s bs =
     sorted_wrt (\<lambda>a b. bucket_key_less (b_key (bkt s a)) (b_key (bkt s b))) bs"

definition ordering :: "repo \<Rightarrow> bool" where
  "ordering s = (\<forall>r < length (m_buckets s). keys_sorted s (m_buckets s ! r))"

text \<open>
  The packing invariant: every bucket but the last bucket of its family is full, and two
  buckets of one family (buckets of one rank whose keys agree up to the family count)
  that both have room are the same bucket.
\<close>

definition packing :: "repo \<Rightarrow> bool" where
  "packing s =
     (\<forall>r < length (m_buckets s). \<forall>b \<in> set (m_buckets s ! r).
        (b \<noteq> last_bucket_in_family s b \<longrightarrow> b_size (bkt s b) = b_capacity (bkt s b)) \<and>
        (\<forall>b' \<in> set (m_buckets s ! r).
           bucket_part_equal (b_key (bkt s b)) (b_key (bkt s b')) \<and>
           b_size (bkt s b) < b_capacity (bkt s b) \<and>
           b_size (bkt s b') < b_capacity (bkt s b') \<longrightarrow> b = b'))"

text \<open>
  A bucket of the vector of rank \<open>r\<close> is allocated and well formed.
\<close>

definition bucket_wf :: "repo \<Rightarrow> nat \<Rightarrow> bucket_ptr \<Rightarrow> bool" where
  "bucket_wf s r b =
     (heap s b \<noteq> None \<and> b < next_addr s \<and> b_entity_rank (bkt s b) = r \<and>
      key_ok (b_key (bkt s b)) \<and> b_capacity (bkt s b) = m_bucket_capacity s \<and>
      b_size (bkt s b) \<le> b_capacity (bkt s b))"

text \<open>
  The family pointers of a bucket \<open>b\<close> of the vector \<open>bs\<close>: its first bucket is in the
  vector, has the parts of \<open>b\<close> and the family count 0; the last bucket that the first
  bucket points to is in the vector, has the parts of \<open>b\<close> and the largest family count
  of the family; and a bucket that is not the last of its family is not empty.
\<close>

definition family_wf :: "repo \<Rightarrow> bucket_ptr list \<Rightarrow> bucket_ptr \<Rightarrow> bool" where
  "family_wf s bs b =
     (first_bucket_in_family s b \<in> set bs \<and>
      last_bucket_in_family s b \<in> set bs \<and>
      butlast (b_key (bkt s (first_bucket_in_family s b))) = butlast (b_key (bkt s b)) \<and>
      family_count (b_key (bkt s (first_bucket_in_family s b))) = 0 \<and>
      butlast (b_key (bkt s (last_bucket_in_family s b))) = butlast (b_key (bkt s b)) \<and>
      (\<forall>b' \<in> set bs. butlast (b_key (bkt s b')) = butlast (b_key (bkt s b)) \<longrightarrow>
         family_count (b_key (bkt s b')) \<le> family_count (b_key (bkt s (last_bucket_in_family s b)))) \<and>
      (b \<noteq> last_bucket_in_family s b \<longrightarrow>
         b_size (bkt s b) = b_capacity (bkt s b) \<and> 0 < b_size (bkt s b)))"

definition rank_inv :: "repo \<Rightarrow> nat \<Rightarrow> bool" where
  "rank_inv s r =
     (keys_sorted s (m_buckets s ! r) \<and>
      (\<forall>b \<in> set (m_buckets s ! r). bucket_wf s r b \<and> family_wf s (m_buckets s ! r) b))"

definition repo_inv :: "repo \<Rightarrow> bool" where
  "repo_inv s = (\<forall>r < length (m_buckets s). rank_inv s r)"

text \<open>
  No bucket of rank \<open>r\<close> carries the largest unsigned value as its family count, that
  is, no family of the rank has \<open>2 ^ 32\<close> buckets.
\<close>

definition counters_below_max :: "repo \<Rightarrow> nat \<Rightarrow> bool" where
  "counters_below_max s r =
     (\<forall>b \<in> set (m_buckets s ! r). family_count (b_key (bkt s b)) \<noteq> - 1)"

subsection \<open>Consequences of the invariants\<close>

lemma keys_sorted_inj:
  "keys_sorted s bs \<Longrightarrow> a \<in> set bs \<Longrightarrow> b \<in> set bs \<Longrightarrow>
   b_key (bkt s a) = b_key (bkt s b) \<Longrightarrow> a = b"
proof (induction bs)
  case Nil
  then show ?case by simp
next
  case (Cons x xs)
  have sx: "keys_sorted s xs"
    and lt: "\<forall>y \<in> set xs. bucket_key_less (b_key (bkt s x)) (b_key (bkt s y))"
    using Cons.prems(1) by (simp_all add: keys_sorted_def)
  consider "a = x" "b = x" | "a = x" "b \<in> set xs" | "a \<in> set xs" "b = x"
    | "a \<in> set xs" "b \<in> set xs"
    using Cons.prems(2,3) by auto
  then show ?case
  proof cases
    case 1
    then show ?thesis by simp
  next
    case 2
    then have "bucket_key_less (b_key (bkt s a)) (b_key (bkt s b))" using lt by simp
    then show ?thesis using Cons.prems(4) bkl_irrefl by simp
  next
    case 3
    then have "bucket_key_less (b_key (bkt s b)) (b_key (bkt s a))" using lt by simp
    then show ?thesis using Cons.prems(4) bkl_irrefl by simp
  next
    case 4
    then show ?thesis using Cons.IH [OF sx] Cons.prems(4) by simp
  qed
qed

lemma keys_sorted_distinct: "keys_sorted s bs \<Longrightarrow> distinct bs"
  unfolding keys_sorted_def
  by (induction bs) (auto simp: bkl_irrefl)

lemma lower_bound_take:
  "b \<in> set (take (lower_bound s bs key) bs) \<Longrightarrow> bucket_key_less (b_key (bkt s b)) key"
  unfolding lower_bound_def
  by (metis (mono_tags, lifting) set_takeWhileD takeWhile_eq_take)

lemma lower_bound_drop:
  assumes "keys_sorted s bs" and "b \<in> set (drop (lower_bound s bs key) bs)"
  shows "\<not> bucket_key_less (b_key (bkt s b)) key"
  using assms
proof (induction bs)
  case Nil
  then show ?case by simp
next
  case (Cons x xs)
  show ?case
  proof (cases "bucket_key_less (b_key (bkt s x)) key")
    case True
    then show ?thesis using Cons by (simp add: lower_bound_def keys_sorted_def)
  next
    case False
    then have "lower_bound s (x # xs) key = 0" by (simp add: lower_bound_def)
    then have "b = x \<or> b \<in> set xs" using Cons.prems(2) by simp
    moreover have "\<forall>y \<in> set xs. bucket_key_less (b_key (bkt s x)) (b_key (bkt s y))"
      using Cons.prems(1) by (simp add: keys_sorted_def)
    ultimately show ?thesis using False bkl_trans by blast
  qed
qed

lemma lower_bound_le: "lower_bound s bs key \<le> length bs"
  by (simp add: lower_bound_def length_takeWhile_le)

lemma lower_bound_self:
  assumes "keys_sorted s bs" and "i < length bs"
  shows "lower_bound s bs (b_key (bkt s (bs ! i))) = i"
proof -
  let ?P = "\<lambda>b. bucket_key_less (b_key (bkt s b)) (b_key (bkt s (bs ! i)))"
  have bs: "bs = take i bs @ (bs ! i) # drop (Suc i) bs"
    using assms(2) by (simp add: id_take_nth_drop)
  have "\<forall>b \<in> set (take i bs). ?P b"
  proof
    fix b assume "b \<in> set (take i bs)"
    then obtain j where "j < i" and "b = bs ! j"
      using assms(2) by (auto simp: in_set_conv_nth)
    then show "?P b" using assms unfolding keys_sorted_def
      by (simp add: sorted_wrt_iff_nth_less)
  qed
  moreover have "\<not> ?P (bs ! i)" by (simp add: bkl_irrefl)
  ultimately have "takeWhile ?P (take i bs @ (bs ! i) # drop (Suc i) bs) = take i bs"
    by (simp add: takeWhile_append2)
  then have "takeWhile ?P bs = take i bs" using bs by simp
  then show ?thesis using assms(2) by (simp add: lower_bound_def)
qed

lemma word_below_max: "(c :: u32) \<noteq> - 1 \<Longrightarrow> c < - 1"
  by (simp add: word_order.not_eq_extremum)

lemma key_less_count:
  assumes "a \<noteq> []" and "b \<noteq> []" and "butlast a = butlast b"
  shows "bucket_key_less a b \<longleftrightarrow> family_count a < family_count b"
proof -
  have "a = butlast a @ [family_count a]" "b = butlast a @ [family_count b]"
    using assms key_split by metis+
  then show ?thesis using bkl_same_parts by metis
qed

lemma make_key_nonempty: "make_key p c \<noteq> []"
  by (simp add: make_key_def)

lemma key_ok_nonempty: "key_ok k \<Longrightarrow> k \<noteq> []"
  by (auto simp: key_ok_def)

lemma key_eq_parts_count:
  assumes "a \<noteq> []" and "b \<noteq> []" and "butlast a = butlast b"
    and "family_count a = family_count b"
  shows "a = b"
  using assms key_split by metis

lemma rank_inv_bucket:
  "rank_inv s r \<Longrightarrow> b \<in> set (m_buckets s ! r) \<Longrightarrow>
   bucket_wf s r b \<and> family_wf s (m_buckets s ! r) b"
  by (simp add: rank_inv_def)

lemma rank_inv_sorted: "rank_inv s r \<Longrightarrow> keys_sorted s (m_buckets s ! r)"
  by (simp add: rank_inv_def)

lemma rank_inv_key_ok:
  "rank_inv s r \<Longrightarrow> b \<in> set (m_buckets s ! r) \<Longrightarrow> key_ok (b_key (bkt s b))"
  by (simp add: rank_inv_def bucket_wf_def)

lemma family_same_first:
  assumes inv: "rank_inv s r"
    and a: "a \<in> set (m_buckets s ! r)" and b: "b \<in> set (m_buckets s ! r)"
    and eq: "butlast (b_key (bkt s a)) = butlast (b_key (bkt s b))"
  shows "first_bucket_in_family s a = first_bucket_in_family s b"
proof -
  let ?fa = "first_bucket_in_family s a" and ?fb = "first_bucket_in_family s b"
  have fa: "?fa \<in> set (m_buckets s ! r)" "butlast (b_key (bkt s ?fa)) = butlast (b_key (bkt s a))"
    "family_count (b_key (bkt s ?fa)) = 0"
    using rank_inv_bucket [OF inv a] by (simp_all add: family_wf_def)
  have fb: "?fb \<in> set (m_buckets s ! r)" "butlast (b_key (bkt s ?fb)) = butlast (b_key (bkt s b))"
    "family_count (b_key (bkt s ?fb)) = 0"
    using rank_inv_bucket [OF inv b] by (simp_all add: family_wf_def)
  have ka: "b_key (bkt s ?fa) \<noteq> []"
    using key_ok_nonempty [OF rank_inv_key_ok [OF inv fa(1)]] .
  have kb: "b_key (bkt s ?fb) \<noteq> []"
    using key_ok_nonempty [OF rank_inv_key_ok [OF inv fb(1)]] .
  have "b_key (bkt s ?fa) = b_key (bkt s ?fb)"
    by (rule key_eq_parts_count [OF ka kb]) (simp_all add: fa fb eq)
  then show ?thesis using keys_sorted_inj [OF rank_inv_sorted [OF inv] fa(1) fb(1)] by simp
qed

lemma family_same_last:
  assumes "rank_inv s r"
    and "a \<in> set (m_buckets s ! r)" and "b \<in> set (m_buckets s ! r)"
    and "butlast (b_key (bkt s a)) = butlast (b_key (bkt s b))"
  shows "last_bucket_in_family s a = last_bucket_in_family s b"
  using family_same_first [OF assms] by (simp add: last_bucket_in_family_def)

lemma repo_inv_packing: "repo_inv s \<Longrightarrow> packing s"
  unfolding packing_def
proof (intro allI impI ballI conjI)
  fix r b
  assume inv: "repo_inv s" and r: "r < length (m_buckets s)" and b: "b \<in> set (m_buckets s ! r)"
  have ri: "rank_inv s r" using inv r by (simp add: repo_inv_def)
  have fw: "family_wf s (m_buckets s ! r) b" using rank_inv_bucket [OF ri b] by simp
  {
    assume "b \<noteq> last_bucket_in_family s b"
    then show "b_size (bkt s b) = b_capacity (bkt s b)" using fw by (simp add: family_wf_def)
  }
  fix b'
  assume b': "b' \<in> set (m_buckets s ! r)"
    and h: "bucket_part_equal (b_key (bkt s b)) (b_key (bkt s b')) \<and>
            b_size (bkt s b) < b_capacity (bkt s b) \<and>
            b_size (bkt s b') < b_capacity (bkt s b')"
  have fw': "family_wf s (m_buckets s ! r) b'" using rank_inv_bucket [OF ri b'] by simp
  have "b = last_bucket_in_family s b" using fw h by (auto simp: family_wf_def)
  moreover have "b' = last_bucket_in_family s b'" using fw' h by (auto simp: family_wf_def)
  moreover have "last_bucket_in_family s b = last_bucket_in_family s b'"
    using family_same_last [OF ri b b'] h by (simp add: bucket_part_equal_def)
  ultimately show "b = b'" by simp
qed

lemma repo_inv_ordering: "repo_inv s \<Longrightarrow> ordering s"
  by (simp add: repo_inv_def ordering_def rank_inv_def)

text \<open>The buckets of the searched family lie before the search position.\<close>

lemma search_family_before:
  assumes inv: "rank_inv s r" and cm: "counters_below_max s r"
    and b: "b \<in> set (m_buckets s ! r)"
    and eq: "butlast (b_key (bkt s b)) = butlast (make_key p (- 1))"
  shows "b \<in> set (take (search_position s r p) (m_buckets s ! r))"
proof -
  have "family_count (b_key (bkt s b)) < - 1"
    using cm b by (simp add: counters_below_max_def word_below_max)
  then have "bucket_key_less (b_key (bkt s b)) (make_key p (- 1))"
    using key_less_count [OF key_ok_nonempty [OF rank_inv_key_ok [OF inv b]]
        make_key_nonempty eq]
    by (simp add: make_key_count)
  then have "b \<notin> set (drop (search_position s r p) (m_buckets s ! r))"
    using lower_bound_drop [OF rank_inv_sorted [OF inv]] by (auto simp: search_position_def)
  moreover have "b \<in> set (take (search_position s r p) (m_buckets s ! r)) \<union>
                 set (drop (search_position s r p) (m_buckets s ! r))"
    using b by (metis append_take_drop_id set_append)
  ultimately show ?thesis by simp
qed

lemma find_last_bucket_Some:
  assumes "find_last_bucket s r p = Some lb"
  shows "search_position s r p \<noteq> 0
       \<and> lb = (m_buckets s ! r) ! (search_position s r p - 1)
       \<and> lb \<in> set (take (search_position s r p) (m_buckets s ! r))
       \<and> butlast (b_key (bkt s lb)) = butlast (make_key p (- 1))"
proof -
  let ?ik = "search_position s r p" and ?L = "m_buckets s ! r"
  have c: "?ik \<noteq> 0" and l: "lb = ?L ! (?ik - 1)"
    and e: "bucket_part_equal (b_key (bkt s lb)) (make_key p (- 1))"
    using assms by (auto simp: find_last_bucket_def Let_def split: if_splits)
  have le: "?ik \<le> length ?L" by (simp add: search_position_def lower_bound_le)
  then have "take ?ik ?L ! (?ik - 1) = ?L ! (?ik - 1)" using c by simp
  then have "lb \<in> set (take ?ik ?L)"
    using c le l by (metis diff_less length_take less_numeral_extra(1) min.absorb2 neq0_conv nth_mem)
  then show ?thesis using c l e by (simp add: bucket_part_equal_def)
qed

lemma find_last_bucket_None:
  assumes "find_last_bucket s r p = None"
  shows "search_position s r p = 0 \<or>
         butlast (b_key (bkt s ((m_buckets s ! r) ! (search_position s r p - 1))))
           \<noteq> butlast (make_key p (- 1))"
  using assms by (auto simp: find_last_bucket_def Let_def bucket_part_equal_def split: if_splits)

text \<open>A bucket before position \<open>n\<close> has a key not above the key of the bucket at \<open>n - 1\<close>.\<close>

lemma take_below_last:
  assumes "keys_sorted s bs" and "n \<le> length bs" and "b \<in> set (take n bs)"
  shows "\<not> bucket_key_less (b_key (bkt s (bs ! (n - 1)))) (b_key (bkt s b))"
proof -
  obtain j where j: "j < n" and bj: "b = bs ! j"
    using assms(2,3) by (auto simp: in_set_conv_nth)
  show ?thesis
  proof (cases "j = n - 1")
    case True
    then show ?thesis using bj bkl_irrefl by simp
  next
    case False
    then have "j < n - 1" "n - 1 < length bs" using j assms(2) by simp_all
    then have "bucket_key_less (b_key (bkt s b)) (b_key (bkt s (bs ! (n - 1))))"
      using assms(1) bj unfolding keys_sorted_def by (simp add: sorted_wrt_iff_nth_less)
    then show ?thesis using bkl_asym by blast
  qed
qed

lemma hd_butlast_nonempty: "butlast xs \<noteq> [] \<Longrightarrow> hd (butlast xs) = hd xs"
  by (cases xs) (auto split: if_splits)

lemma key_ok_same_parts:
  assumes "key_ok a" and "b \<noteq> []" and "butlast a = butlast b"
  shows "key_ok b"
proof -
  have la: "2 \<le> length a" and ha: "unat (hd a) = length a - 1"
    using assms(1) by (simp_all add: key_ok_def)
  have "length (butlast a) = length (butlast b)" using assms(3) by simp
  then have "length a - 1 = length b - 1" by simp
  moreover have "0 < length b" using assms(2) by simp
  ultimately have len: "length b = length a" using la by arith
  have "butlast a \<noteq> []" using la by (cases a) auto
  then have "hd (butlast a) = hd a" "hd (butlast b) = hd b"
    using assms(3) hd_butlast_nonempty by metis+
  then have "hd b = hd a" using assms(3) by simp
  then show ?thesis using len la ha by (simp add: key_ok_def)
qed

text \<open>
  A key below a key of another family is below every key of that family.
\<close>

lemma key_less_other_family:
  assumes "key_ok z" and "key_ok k" and "k' \<noteq> []" and "butlast k' = butlast k"
    and "bucket_key_less z k" and "butlast z \<noteq> butlast k"
  shows "bucket_key_less z k'"
proof (rule ccontr)
  assume n: "\<not> bucket_key_less z k'"
  have ok': "key_ok k'" using key_ok_same_parts [OF assms(2,3)] assms(4) by simp
  have "\<not> bucket_key_less k z" using assms(5) bkl_asym by blast
  then have "butlast z = butlast k'"
    using key_between [OF ok' assms(1,2) assms(4) n] by simp
  then show False using assms(4,6) by simp
qed

lemma find_last_is_family_last:
  assumes inv: "rank_inv s r" and cm: "counters_below_max s r"
    and fl: "find_last_bucket s r p = Some lb"
  shows "last_bucket_in_family s lb = lb"
proof -
  let ?ik = "search_position s r p" and ?L = "m_buckets s ! r"
  let ?l = "last_bucket_in_family s lb"
  note f = find_last_bucket_Some [OF fl]
  have lbL: "lb \<in> set ?L" using f by (meson in_set_takeD)
  have fw: "family_wf s ?L lb" using rank_inv_bucket [OF inv lbL] by simp
  have lL: "?l \<in> set ?L" and lp: "butlast (b_key (bkt s ?l)) = butlast (b_key (bkt s lb))"
    and mx: "family_count (b_key (bkt s lb)) \<le> family_count (b_key (bkt s ?l))"
    using fw lbL by (simp_all add: family_wf_def)
  have fk: "butlast (b_key (bkt s lb)) = butlast (make_key p (- 1))" using f by blast
  have lpK: "butlast (b_key (bkt s ?l)) = butlast (make_key p (- 1))"
    using lp fk by (rule trans)
  have "?l \<in> set (take ?ik ?L)"
    using search_family_before [OF inv cm lL lpK] .
  then have "\<not> bucket_key_less (b_key (bkt s lb)) (b_key (bkt s ?l))"
    using take_below_last [OF rank_inv_sorted [OF inv], of ?ik ?l] f
    by (simp add: search_position_def lower_bound_le del: One_nat_def)
  moreover have nl: "b_key (bkt s lb) \<noteq> []" "b_key (bkt s ?l) \<noteq> []"
    using key_ok_nonempty rank_inv_key_ok [OF inv] lbL lL by blast+
  ultimately have "\<not> family_count (b_key (bkt s lb)) < family_count (b_key (bkt s ?l))"
    using key_less_count [OF nl(1) nl(2)] lp by simp
  then have "family_count (b_key (bkt s lb)) = family_count (b_key (bkt s ?l))"
    using mx by simp
  then have "b_key (bkt s ?l) = b_key (bkt s lb)"
    using key_eq_parts_count [OF nl(2) nl(1) lp] by simp
  then show ?thesis using keys_sorted_inj [OF rank_inv_sorted [OF inv] lL lbL] by simp
qed

lemma find_last_None_no_family:
  assumes inv: "rank_inv s r" and cm: "counters_below_max s r"
    and fl: "find_last_bucket s r p = None"
    and b: "b \<in> set (m_buckets s ! r)"
  shows "butlast (b_key (bkt s b)) \<noteq> butlast (make_key p (- 1))"
proof
  let ?ik = "search_position s r p" and ?L = "m_buckets s ! r"
  let ?K = "make_key p (- 1)"
  assume eq: "butlast (b_key (bkt s b)) = butlast ?K"
  have bt: "b \<in> set (take ?ik ?L)" using search_family_before [OF inv cm b eq] .
  have ik0: "?ik \<noteq> 0"
  proof
    assume "?ik = 0"
    then show False using bt by simp
  qed
  have le: "?ik \<le> length ?L" by (simp add: search_position_def lower_bound_le)
  let ?x = "?L ! (?ik - 1)"
  have xt: "?x \<in> set (take ?ik ?L)"
    using ik0 le by (metis diff_less length_take less_numeral_extra(1) min.absorb2 neq0_conv nth_mem nth_take)
  then have xL: "?x \<in> set ?L" by (meson in_set_takeD)
  have n1: "\<not> bucket_key_less (b_key (bkt s ?x)) (b_key (bkt s b))"
    using take_below_last [OF rank_inv_sorted [OF inv] le bt] .
  have "bucket_key_less (b_key (bkt s ?x)) ?K"
    using lower_bound_take [of ?x s ?L ?K] xt by (simp add: search_position_def)
  then have n2: "\<not> bucket_key_less ?K (b_key (bkt s ?x))" using bkl_asym by blast
  have okb: "key_ok (b_key (bkt s b))" and okx: "key_ok (b_key (bkt s ?x))"
    using rank_inv_key_ok [OF inv] b xL by blast+
  have okK: "key_ok ?K" using key_ok_same_parts [OF okb make_key_nonempty eq] .
  have "butlast (b_key (bkt s ?x)) = butlast (b_key (bkt s b))"
    using key_between [OF okb okx okK eq n1 n2] .
  then show False using find_last_bucket_None [OF fl] ik0 eq by simp
qed

subsection \<open>The effect of allocating a bucket\<close>

definition fresh_bucket :: "repo \<Rightarrow> nat \<Rightarrow> u32 list \<Rightarrow> data_map list \<Rightarrow> bucket_ptr \<Rightarrow> bucket_ptr \<Rightarrow> bucket" where
  "fresh_bucket s r key fm first last_bucket =
     \<lparr> b_entity_rank = r, b_key = key, b_capacity = m_bucket_capacity s, b_size = 0,
       b_entities = replicate (m_bucket_capacity s) None,
       b_field_data = replicate (m_bucket_capacity s) [],
       b_field_map = fm, b_first = first, b_last = last_bucket \<rparr>"

lemma allocate_first_effect:
  assumes "allocate_bucket s r key fm None ik = Ok b s'"
  shows "b = next_addr s \<and> mem_avail s \<noteq> 0
       \<and> s' = s\<lparr> next_addr := Suc (next_addr s), mem_avail := mem_avail s - 1,
                 heap := (heap s)(next_addr s \<mapsto> fresh_bucket s r key fm (next_addr s) (next_addr s)),
                 m_buckets := (m_buckets s)
                   [r := take ik (m_buckets s ! r) @ next_addr s # drop ik (m_buckets s ! r)] \<rparr>"
  using assms
  by (auto simp: allocate_bucket_def local_malloc_def Let_def malloc_taken_def upd_def bkt_def
      set_first_bucket_in_family_def set_last_bucket_in_family_def fresh_bucket_def
      split: if_splits)

lemma allocate_next_effect:
  assumes "allocate_bucket s r key fm (Some lb) ik = Ok b s'"
    and "lb \<noteq> next_addr s" and "b_first (bkt s lb) \<noteq> next_addr s"
  shows "b = next_addr s \<and> mem_avail s \<noteq> 0
       \<and> s' = s\<lparr> next_addr := Suc (next_addr s), mem_avail := mem_avail s - 1,
                 heap := (heap s)
                   (next_addr s \<mapsto> fresh_bucket s r key fm (b_first (bkt s lb)) 0,
                    b_first (bkt s lb) \<mapsto> (bkt s (b_first (bkt s lb)))\<lparr> b_last := next_addr s \<rparr>),
                 m_buckets := (m_buckets s)
                   [r := take ik (m_buckets s ! r) @ next_addr s # drop ik (m_buckets s ! r)] \<rparr>"
  using assms
  by (auto simp: allocate_bucket_def local_malloc_def Let_def malloc_taken_def upd_def bkt_def
      set_first_bucket_in_family_def set_last_bucket_in_family_def fresh_bucket_def
      first_bucket_in_family_def
      split: if_splits)

subsection \<open>Buckets that keep their structure\<close>

text \<open>
  The key, size, capacity, rank and family pointers of bucket \<open>b\<close> are the same in both
  states, and \<open>b\<close> is allocated in the second.
\<close>

definition same_structure :: "repo \<Rightarrow> repo \<Rightarrow> bucket_ptr \<Rightarrow> bool" where
  "same_structure s s' b =
     (heap s' b \<noteq> None \<and>
      b_key (bkt s' b) = b_key (bkt s b) \<and>
      b_size (bkt s' b) = b_size (bkt s b) \<and>
      b_capacity (bkt s' b) = b_capacity (bkt s b) \<and>
      b_entity_rank (bkt s' b) = b_entity_rank (bkt s b) \<and>
      b_first (bkt s' b) = b_first (bkt s b) \<and>
      b_last (bkt s' b) = b_last (bkt s b))"

lemma keys_sorted_cong:
  assumes "\<forall>b \<in> set bs. b_key (bkt s' b) = b_key (bkt s b)"
  shows "keys_sorted s' bs = keys_sorted s bs"
  unfolding keys_sorted_def using assms
  by (induction bs) auto

lemma family_wf_frame:
  assumes st: "\<forall>x \<in> set bs. same_structure s s' x"
    and fw: "family_wf s bs b" and b: "b \<in> set bs"
  shows "family_wf s' bs b"
proof -
  have f: "first_bucket_in_family s' b = first_bucket_in_family s b"
    using st b by (simp add: first_bucket_in_family_def same_structure_def)
  have fL: "first_bucket_in_family s b \<in> set bs" using fw by (simp add: family_wf_def)
  have l: "last_bucket_in_family s' b = last_bucket_in_family s b"
    using st fL f
    by (simp add: last_bucket_in_family_def get_bucket_family_pointer_def same_structure_def
        first_bucket_in_family_def)
  have lL: "last_bucket_in_family s b \<in> set bs" using fw by (simp add: family_wf_def)
  have k: "\<forall>x \<in> set bs. b_key (bkt s' x) = b_key (bkt s x)"
    and z: "b_size (bkt s' b) = b_size (bkt s b)" "b_capacity (bkt s' b) = b_capacity (bkt s b)"
    using st b by (simp_all add: same_structure_def)
  show ?thesis
    using fw unfolding family_wf_def f l z
    using k b fL lL by auto
qed

lemma rank_inv_frame:
  assumes inv: "rank_inv s r"
    and bs: "m_buckets s' ! r = m_buckets s ! r"
    and na: "next_addr s \<le> next_addr s'"
    and cap: "m_bucket_capacity s' = m_bucket_capacity s"
    and st: "\<forall>b \<in> set (m_buckets s ! r). same_structure s s' b"
  shows "rank_inv s' r"
proof -
  have k: "\<forall>b \<in> set (m_buckets s ! r). b_key (bkt s' b) = b_key (bkt s b)"
    using st by (simp add: same_structure_def)
  have "keys_sorted s' (m_buckets s ! r)"
    using keys_sorted_cong [OF k] rank_inv_sorted [OF inv] by simp
  moreover have "\<forall>b \<in> set (m_buckets s ! r). bucket_wf s' r b"
  proof
    fix b assume b: "b \<in> set (m_buckets s ! r)"
    then have "bucket_wf s r b" using rank_inv_bucket [OF inv] by simp
    then show "bucket_wf s' r b"
      using st b na cap by (simp add: bucket_wf_def same_structure_def)
  qed
  moreover have "\<forall>b \<in> set (m_buckets s ! r). family_wf s' (m_buckets s ! r) b"
    using family_wf_frame [OF st] rank_inv_bucket [OF inv] by blast
  ultimately show ?thesis by (simp add: rank_inv_def bs)
qed

subsection \<open>Inserting a bucket into an ordered vector\<close>

lemma keys_sorted_insert:
  assumes so: "keys_sorted s bs"
    and old: "\<forall>b \<in> set bs. b_key (bkt s' b) = b_key (bkt s b)"
    and before: "\<forall>a \<in> set (take ik bs). bucket_key_less (b_key (bkt s a)) (b_key (bkt s' nb))"
    and after: "\<forall>b \<in> set (drop ik bs). bucket_key_less (b_key (bkt s' nb)) (b_key (bkt s b))"
  shows "keys_sorted s' (take ik bs @ nb # drop ik bs)"
proof -
  let ?P = "\<lambda>a b. bucket_key_less (b_key (bkt s a)) (b_key (bkt s b))"
  let ?P' = "\<lambda>a b. bucket_key_less (b_key (bkt s' a)) (b_key (bkt s' b))"
  have "sorted_wrt ?P (take ik bs @ drop ik bs)" using so by (simp add: keys_sorted_def)
  then have t: "sorted_wrt ?P (take ik bs)" and d: "sorted_wrt ?P (drop ik bs)"
    and c: "\<forall>a \<in> set (take ik bs). \<forall>b \<in> set (drop ik bs). ?P a b"
    unfolding sorted_wrt_append by blast+
  have ot: "\<forall>b \<in> set (take ik bs). b_key (bkt s' b) = b_key (bkt s b)"
    and od: "\<forall>b \<in> set (drop ik bs). b_key (bkt s' b) = b_key (bkt s b)"
    using old by (meson in_set_takeD in_set_dropD)+
  have t': "sorted_wrt ?P' (take ik bs)"
    using t keys_sorted_cong [OF ot] by (simp add: keys_sorted_def)
  have d': "sorted_wrt ?P' (drop ik bs)"
    using d keys_sorted_cong [OF od] by (simp add: keys_sorted_def)
  have c': "\<forall>a \<in> set (take ik bs). \<forall>b \<in> set (drop ik bs). ?P' a b"
    using c ot od by simp
  have b': "\<forall>a \<in> set (take ik bs). ?P' a nb" using before ot by simp
  have a': "\<forall>b \<in> set (drop ik bs). ?P' nb b" using after od by simp
  show ?thesis
    unfolding keys_sorted_def sorted_wrt_append sorted_wrt.simps
    using t' d' c' b' a' by auto
qed

lemma set_insert_at: "set (take ik bs @ nb # drop ik bs) = insert nb (set bs)"
proof -
  have "set (take ik bs @ nb # drop ik bs) = insert nb (set (take ik bs @ drop ik bs))"
    by (simp only: set_append set_simps) blast
  then show ?thesis by simp
qed

text \<open>
  The key below which no bucket of another family can slip: a bucket after the search
  position is above every key of the searched family whose count is not the maximum,
  and above the key with the maximal count when no bucket has that key.
\<close>

lemma search_after_above:
  assumes inv: "rank_inv s r" and cm: "counters_below_max s r"
    and b: "b \<in> set (drop (search_position s r p) (m_buckets s ! r))"
  shows "bucket_key_less (make_key p c) (b_key (bkt s b))"
proof -
  let ?K = "make_key p (- 1)"
  have bL: "b \<in> set (m_buckets s ! r)" using b by (meson in_set_dropD)
  have n: "\<not> bucket_key_less (b_key (bkt s b)) ?K"
    using lower_bound_drop [OF rank_inv_sorted [OF inv]] b by (simp add: search_position_def)
  have "family_count (b_key (bkt s b)) \<noteq> - 1"
    using cm bL by (simp add: counters_below_max_def)
  then have "b_key (bkt s b) \<noteq> ?K" using make_key_count by metis
  then have gt: "bucket_key_less ?K (b_key (bkt s b))" using n bkl_total by blast
  show ?thesis
  proof (cases "c = - 1")
    case True
    then show ?thesis using gt by simp
  next
    case False
    then have "bucket_key_less (make_key p c) ?K"
      by (simp add: make_key_less word_below_max)
    then show ?thesis using gt bkl_trans by blast
  qed
qed

subsection \<open>declare-bucket keeps the invariants\<close>

lemma fresh_bucket_fields:
  "b_entity_rank (fresh_bucket s r key fm f l) = r"
  "b_key (fresh_bucket s r key fm f l) = key"
  "b_capacity (fresh_bucket s r key fm f l) = m_bucket_capacity s"
  "b_size (fresh_bucket s r key fm f l) = 0"
  "b_first (fresh_bucket s r key fm f l) = f"
  "b_last (fresh_bucket s r key fm f l) = l"
  "b_entities (fresh_bucket s r key fm f l) = replicate (m_bucket_capacity s) None"
  by (simp_all add: fresh_bucket_def)

lemma repo_inv_rank: "repo_inv s \<Longrightarrow> r < length (m_buckets s) \<Longrightarrow> rank_inv s r"
  by (simp add: repo_inv_def)

lemma rank_inv_below_next:
  "rank_inv s r \<Longrightarrow> b \<in> set (m_buckets s ! r) \<Longrightarrow> b < next_addr s \<and> heap s b \<noteq> None"
  using rank_inv_bucket by (auto simp: bucket_wf_def)

lemma allocate_first_preserves:
  assumes inv: "repo_inv s" and r: "r < length (m_buckets s)"
    and cm: "counters_below_max s r"
    and fl: "find_last_bucket s r p = None"
    and ok: "key_ok (make_key p 0)"
    and al: "allocate_bucket s r (make_key p 0) fm None (search_position s r p) = Ok b s'"
  shows "repo_inv s'"
proof -
  define n where "n = next_addr s"
  define L where "L = m_buckets s ! r"
  define ik where "ik = search_position s r p"
  define L' where "L' = take ik L @ n # drop ik L"
  note e = allocate_first_effect [OF al]
  have s': "s' = s\<lparr> next_addr := Suc n, mem_avail := mem_avail s - 1,
                 heap := (heap s)(n \<mapsto> fresh_bucket s r (make_key p 0) fm n n),
                 m_buckets := (m_buckets s)[r := L'] \<rparr>"
    using e by (simp add: n_def L_def ik_def L'_def)
  have mb: "m_buckets s' = (m_buckets s)[r := L']" and na: "next_addr s' = Suc n"
    and cap: "m_bucket_capacity s' = m_bucket_capacity s"
    by (simp_all add: s')
  have old_heap: "x \<noteq> n \<Longrightarrow> heap s' x = heap s x" for x
    by (simp add: s')
  have old: "x \<noteq> n \<Longrightarrow> bkt s' x = bkt s x" for x
    by (simp add: s' bkt_def)
  have new: "bkt s' n = fresh_bucket s r (make_key p 0) fm n n" "heap s' n \<noteq> None"
    by (simp_all add: s' bkt_def)
  have ri: "rank_inv s r" using repo_inv_rank [OF inv r] .
  have below: "x \<in> set (m_buckets s ! q) \<Longrightarrow> q < length (m_buckets s) \<Longrightarrow> x \<noteq> n" for x q
    using rank_inv_below_next [OF repo_inv_rank [OF inv]] n_def by blast
  have same: "x \<in> set (m_buckets s ! q) \<Longrightarrow> q < length (m_buckets s) \<Longrightarrow>
              same_structure s s' x" for x q
    using below [of x q] old [of x] old_heap [of x]
      rank_inv_below_next [OF repo_inv_rank [OF inv], of q x]
    by (simp add: same_structure_def)
  have okK: "key_ok (make_key p (- 1))"
    using key_ok_same_parts [OF ok make_key_nonempty] by (simp add: make_key_parts)
  have nofam: "x \<in> set L \<Longrightarrow> butlast (b_key (bkt s x)) \<noteq> butlast (make_key p c)" for x c
    using find_last_None_no_family [OF ri cm fl] by (simp add: L_def make_key_parts)
  have "rank_inv s' q" if q: "q < length (m_buckets s)" for q
  proof (cases "q = r")
    case False
    have "m_buckets s' ! q = m_buckets s ! q" using False by (simp add: mb)
    then show ?thesis
      using rank_inv_frame [OF repo_inv_rank [OF inv q]] na cap same q n_def by simp
  next
    case True
    have Lq: "m_buckets s' ! q = L'" using True r by (simp add: mb)
    have setL': "set L' = insert n (set L)" unfolding L'_def by (rule set_insert_at)
    have nL: "n \<notin> set L" using below r L_def by blast
    have oldk: "\<forall>x \<in> set L. b_key (bkt s' x) = b_key (bkt s x)"
    proof
      fix x assume "x \<in> set L"
      then have "x \<noteq> n" using nL by auto
      then show "b_key (bkt s' x) = b_key (bkt s x)" by (simp add: old)
    qed
    have before: "\<forall>a \<in> set (take ik L). bucket_key_less (b_key (bkt s a)) (b_key (bkt s' n))"
    proof
      fix a assume a: "a \<in> set (take ik L)"
      then have aL: "a \<in> set L" by (meson in_set_takeD)
      have lt: "bucket_key_less (b_key (bkt s a)) (make_key p (- 1))"
        using lower_bound_take [of a s L "make_key p (- 1)"] a
        by (simp add: ik_def search_position_def L_def)
      have "bucket_key_less (b_key (bkt s a)) (make_key p 0)"
      proof (rule key_less_other_family [OF rank_inv_key_ok [OF ri] okK make_key_nonempty])
        show "a \<in> set (m_buckets s ! r)" using aL by (simp add: L_def)
        show "butlast (make_key p 0) = butlast (make_key p (- 1))"
          by (simp add: make_key_parts)
        show "bucket_key_less (b_key (bkt s a)) (make_key p (- 1))" by (rule lt)
        show "butlast (b_key (bkt s a)) \<noteq> butlast (make_key p (- 1))"
          using nofam [OF aL] .
      qed
      then show "bucket_key_less (b_key (bkt s a)) (b_key (bkt s' n))"
        by (simp add: new fresh_bucket_fields)
    qed
    have after: "\<forall>x \<in> set (drop ik L). bucket_key_less (b_key (bkt s' n)) (b_key (bkt s x))"
      using search_after_above [OF ri cm, of _ p 0]
      by (simp add: new fresh_bucket_fields L_def ik_def)
    have so: "keys_sorted s' L'"
      unfolding L'_def
      using keys_sorted_insert [OF _ oldk before after] rank_inv_sorted [OF ri] L_def by simp
    have wf: "\<forall>x \<in> set L'. bucket_wf s' q x"
    proof
      fix x assume "x \<in> set L'"
      then consider "x = n" | "x \<in> set L" using setL' by auto
      then show "bucket_wf s' q x"
      proof cases
        case 1
        then show ?thesis
          using new ok na cap True by (simp add: bucket_wf_def fresh_bucket_fields)
      next
        case 2
        then have "bucket_wf s r x" using rank_inv_bucket [OF ri] L_def by simp
        then show ?thesis
          using same [of x r] 2 r na cap True n_def L_def
          by (simp add: bucket_wf_def same_structure_def)
      qed
    qed
    have fw: "\<forall>x \<in> set L'. family_wf s' L' x"
    proof
      fix x assume "x \<in> set L'"
      then consider "x = n" | "x \<in> set L" using setL' by auto
      then show "family_wf s' L' x"
      proof cases
        case 1
        have f: "first_bucket_in_family s' n = n" and l: "last_bucket_in_family s' n = n"
          by (simp_all add: first_bucket_in_family_def last_bucket_in_family_def
              get_bucket_family_pointer_def new fresh_bucket_fields)
        have mx: "\<forall>b' \<in> set L'. butlast (b_key (bkt s' b')) = butlast (b_key (bkt s' n)) \<longrightarrow>
                    family_count (b_key (bkt s' b')) \<le> family_count (b_key (bkt s' n))"
        proof (intro ballI impI)
          fix b' assume b': "b' \<in> set L'"
            and eq: "butlast (b_key (bkt s' b')) = butlast (b_key (bkt s' n))"
          have "b' = n"
          proof (rule ccontr)
            assume "b' \<noteq> n"
            then have "b' \<in> set L" using b' setL' by auto
            then show False using nofam [of b' 0] eq oldk
              by (simp add: new fresh_bucket_fields)
          qed
          then show "family_count (b_key (bkt s' b')) \<le> family_count (b_key (bkt s' n))"
            by simp
        qed
        show ?thesis
          unfolding 1 family_wf_def f l
          using mx setL' by (simp add: new fresh_bucket_fields make_key_count)
      next
        case 2
        have fwx: "family_wf s L x" using rank_inv_bucket [OF ri] 2 L_def by simp
        have st: "\<forall>y \<in> set L. same_structure s s' y" using same r L_def by blast
        have fw1: "family_wf s' L x" using family_wf_frame [OF st fwx 2] .
        have "butlast (b_key (bkt s' n)) \<noteq> butlast (b_key (bkt s' x))"
          using nofam [of x 0] oldk 2 by (simp add: new fresh_bucket_fields)
        then show ?thesis
          using fw1 unfolding family_wf_def setL' by auto
      qed
    qed
    show ?thesis using so wf fw by (simp add: rank_inv_def Lq)
  qed
  then show ?thesis by (simp add: repo_inv_def mb)
qed

lemma word_less_succ: "(c :: u32) < - 1 \<Longrightarrow> c < 1 + c"
  by (metis add.commute inc_less_eq_iff verit_comp_simplify1(1,3))

lemma rank_inv_size_le:
  "rank_inv s r \<Longrightarrow> b \<in> set (m_buckets s ! r) \<Longrightarrow> b_size (bkt s b) \<le> b_capacity (bkt s b)"
  by (auto simp: rank_inv_def bucket_wf_def)

lemma allocate_next_preserves:
  assumes inv: "repo_inv s" and r: "r < length (m_buckets s)"
    and cm: "counters_below_max s r"
    and fl: "find_last_bucket s r p = Some lb"
    and full: "b_size (bkt s lb) \<noteq> 0" "\<not> b_size (bkt s lb) < b_capacity (bkt s lb)"
    and al: "allocate_bucket s r (make_key p (1 + family_count (b_key (bkt s lb))))
               fm (Some lb) (search_position s r p) = Ok b s'"
  shows "repo_inv s'"
proof -
  define n where "n = next_addr s"
  define L where "L = m_buckets s ! r"
  define ik where "ik = search_position s r p"
  define L' where "L' = take ik L @ n # drop ik L"
  define f where "f = b_first (bkt s lb)"
  define c where "c = family_count (b_key (bkt s lb))"
  define nk where "nk = make_key p (1 + c)"
  have ri: "rank_inv s r" using repo_inv_rank [OF inv r] .
  note fs = find_last_bucket_Some [OF fl]
  have lbL: "lb \<in> set L" using fs unfolding L_def by (meson in_set_takeD)
  have lbK: "butlast (b_key (bkt s lb)) = butlast (make_key p (- 1))" using fs by blast
  have lbi: "lb = L ! (ik - 1)" using fs by (simp add: L_def ik_def)
  have fwlb: "family_wf s L lb" using rank_inv_bucket [OF ri] lbL L_def by simp
  have fL: "f \<in> set L" using fwlb by (simp add: family_wf_def f_def first_bucket_in_family_def)
  have below: "x \<in> set (m_buckets s ! q) \<Longrightarrow> q < length (m_buckets s) \<Longrightarrow> x \<noteq> n" for x q
    using rank_inv_below_next [OF repo_inv_rank [OF inv]] n_def by blast
  have lbn: "lb \<noteq> n" and fn: "f \<noteq> n" using below r lbL fL L_def by blast+
  note e = allocate_next_effect [OF al]
  have s': "s' = s\<lparr> next_addr := Suc n, mem_avail := mem_avail s - 1,
                 heap := (heap s)(n \<mapsto> fresh_bucket s r nk fm f 0,
                                  f \<mapsto> (bkt s f)\<lparr> b_last := n \<rparr>),
                 m_buckets := (m_buckets s)[r := L'] \<rparr>"
    using e lbn fn by (simp add: n_def L_def ik_def L'_def f_def c_def nk_def)
  have mb: "m_buckets s' = (m_buckets s)[r := L']" and na: "next_addr s' = Suc n"
    and cap: "m_bucket_capacity s' = m_bucket_capacity s"
    by (simp_all add: s')
  have old_heap: "x \<noteq> n \<Longrightarrow> heap s' x \<noteq> None \<longleftrightarrow> x = f \<or> heap s x \<noteq> None" for x
    by (simp add: s')
  have old: "x \<noteq> n \<Longrightarrow> x \<noteq> f \<Longrightarrow> bkt s' x = bkt s x" for x
    by (simp add: s' bkt_def)
  have bf: "bkt s' f = (bkt s f)\<lparr> b_last := n \<rparr>"
    using fn by (simp add: s' bkt_def)
  have new: "bkt s' n = fresh_bucket s r nk fm f 0" "heap s' n \<noteq> None"
    using fn by (simp_all add: s' bkt_def)
  have acc: "x \<noteq> n \<Longrightarrow> b_key (bkt s' x) = b_key (bkt s x) \<and> b_size (bkt s' x) = b_size (bkt s x)
      \<and> b_capacity (bkt s' x) = b_capacity (bkt s x)
      \<and> b_entity_rank (bkt s' x) = b_entity_rank (bkt s x)
      \<and> b_first (bkt s' x) = b_first (bkt s x)" for x
    using old [of x] bf by (cases "x = f") simp_all
  have accl: "x \<noteq> n \<Longrightarrow> x \<noteq> f \<Longrightarrow> b_last (bkt s' x) = b_last (bkt s x)" for x
    using old [of x] by simp
  have lastf: "b_last (bkt s' f) = n" using bf by simp
  have frank: "b_entity_rank (bkt s f) = r"
    using rank_inv_bucket [OF ri] fL L_def by (simp add: bucket_wf_def)
  have cl: "c < - 1" using cm lbL by (simp add: counters_below_max_def c_def L_def word_below_max)
  have lblast: "last_bucket_in_family s lb = lb" using find_last_is_family_last [OF ri cm fl] .
  have oklb: "key_ok (b_key (bkt s lb))" using rank_inv_key_ok [OF ri] lbL L_def by simp
  have nkp: "butlast nk = butlast (b_key (bkt s lb))" using lbK by (simp add: nk_def make_key_parts)
  have oknk: "key_ok nk"
    using key_ok_same_parts [OF oklb _ nkp [symmetric]] make_key_nonempty by (simp add: nk_def)
  have lbnk: "bucket_key_less (b_key (bkt s lb)) nk"
    using key_less_count [OF key_ok_nonempty [OF oklb] _ nkp [symmetric]] make_key_nonempty
      word_less_succ [OF cl]
    by (simp add: nk_def make_key_count c_def)
  have "rank_inv s' q" if q: "q < length (m_buckets s)" for q
  proof (cases "q = r")
    case False
    have mq: "m_buckets s' ! q = m_buckets s ! q" using False by (simp add: mb)
    have "\<forall>x \<in> set (m_buckets s ! q). same_structure s s' x"
    proof
      fix x assume x: "x \<in> set (m_buckets s ! q)"
      have xn: "x \<noteq> n" using below [OF x q] .
      have "b_entity_rank (bkt s x) = q"
        using rank_inv_bucket [OF repo_inv_rank [OF inv q] x] by (simp add: bucket_wf_def)
      then have xf: "x \<noteq> f" using frank False by auto
      have "heap s x \<noteq> None" using rank_inv_below_next [OF repo_inv_rank [OF inv q] x] by simp
      then show "same_structure s s' x"
        using acc [OF xn] accl [OF xn xf] old_heap [OF xn] by (simp add: same_structure_def)
    qed
    then show ?thesis
      using rank_inv_frame [OF repo_inv_rank [OF inv q] mq] na cap n_def by simp
  next
    case True
    have Lq: "m_buckets s' ! q = L'" using True r by (simp add: mb)
    have setL': "set L' = insert n (set L)" unfolding L'_def by (rule set_insert_at)
    have nL: "n \<notin> set L" using below r L_def by blast
    have xn: "x \<in> set L \<Longrightarrow> x \<noteq> n" for x using nL by auto
    have oldk: "\<forall>x \<in> set L. b_key (bkt s' x) = b_key (bkt s x)"
      using acc xn by simp
    have le: "ik \<le> length L" by (simp add: ik_def L_def search_position_def lower_bound_le)
    have before: "\<forall>a \<in> set (take ik L). bucket_key_less (b_key (bkt s a)) (b_key (bkt s' n))"
    proof
      fix a assume a: "a \<in> set (take ik L)"
      have "\<not> bucket_key_less (b_key (bkt s lb)) (b_key (bkt s a))"
        using take_below_last [OF _ le a] rank_inv_sorted [OF ri] lbi L_def by simp
      then have "b_key (bkt s a) = b_key (bkt s lb) \<or>
                 bucket_key_less (b_key (bkt s a)) (b_key (bkt s lb))"
        using bkl_total by blast
      then have "bucket_key_less (b_key (bkt s a)) nk" using lbnk bkl_trans by metis
      then show "bucket_key_less (b_key (bkt s a)) (b_key (bkt s' n))"
        by (simp add: new fresh_bucket_fields)
    qed
    have after: "\<forall>x \<in> set (drop ik L). bucket_key_less (b_key (bkt s' n)) (b_key (bkt s x))"
      using search_after_above [OF ri cm, of _ p "1 + c"]
      by (simp add: new fresh_bucket_fields L_def ik_def nk_def)
    have so: "keys_sorted s' L'"
      unfolding L'_def
      using keys_sorted_insert [OF _ oldk before after] rank_inv_sorted [OF ri] L_def by simp
    have wf: "\<forall>x \<in> set L'. bucket_wf s' q x"
    proof
      fix x assume "x \<in> set L'"
      then consider "x = n" | "x \<in> set L" using setL' by auto
      then show "bucket_wf s' q x"
      proof cases
        case 1
        then show ?thesis
          using new oknk na cap True by (simp add: bucket_wf_def fresh_bucket_fields)
      next
        case 2
        then have "bucket_wf s r x" using rank_inv_bucket [OF ri] L_def by simp
        then show ?thesis
          using acc [OF xn [OF 2]] old_heap [OF xn [OF 2]] na cap True n_def
          by (simp add: bucket_wf_def)
      qed
    qed
    have famfirst: "x \<in> set L \<Longrightarrow> butlast (b_key (bkt s x)) = butlast (b_key (bkt s lb)) \<Longrightarrow>
                    first_bucket_in_family s x = f" for x
      using family_same_first [OF ri, of x lb] lbL L_def
      by (simp add: f_def first_bucket_in_family_def)
    have fparts: "butlast (b_key (bkt s f)) = butlast (b_key (bkt s lb))"
      and fcount: "family_count (b_key (bkt s f)) = 0"
      using fwlb by (simp_all add: family_wf_def f_def first_bucket_in_family_def)
    have first': "x \<noteq> n \<Longrightarrow> first_bucket_in_family s' x = first_bucket_in_family s x" for x
      using acc [of x] by (simp add: first_bucket_in_family_def)
    have mxold: "x \<in> set L \<Longrightarrow> butlast (b_key (bkt s x)) = butlast (b_key (bkt s lb)) \<Longrightarrow>
                 family_count (b_key (bkt s x)) \<le> 1 + c" for x
    proof -
      assume x: "x \<in> set L" and eq: "butlast (b_key (bkt s x)) = butlast (b_key (bkt s lb))"
      have "family_count (b_key (bkt s x)) \<le> family_count (b_key (bkt s (last_bucket_in_family s lb)))"
        using fwlb x eq by (simp add: family_wf_def)
      then have "family_count (b_key (bkt s x)) \<le> c" by (simp add: lblast c_def)
      then show ?thesis using word_less_succ [OF cl] by simp
    qed
    have mx: "\<forall>b' \<in> set L'. butlast (b_key (bkt s' b')) = butlast nk \<longrightarrow>
                family_count (b_key (bkt s' b')) \<le> family_count (b_key (bkt s' n))"
    proof (intro ballI impI)
      fix b' assume b': "b' \<in> set L'" and eq: "butlast (b_key (bkt s' b')) = butlast nk"
      consider "b' = n" | "b' \<in> set L" using b' setL' by auto
      then show "family_count (b_key (bkt s' b')) \<le> family_count (b_key (bkt s' n))"
      proof cases
        case 1
        then show ?thesis by simp
      next
        case 2
        then show ?thesis
          using mxold [OF 2] eq oldk nkp
          by (simp add: new fresh_bucket_fields nk_def make_key_count)
      qed
    qed
    have fw: "\<forall>x \<in> set L'. family_wf s' L' x"
    proof
      fix x assume "x \<in> set L'"
      then consider "x = n" | "x \<in> set L" "butlast (b_key (bkt s x)) = butlast (b_key (bkt s lb))"
        | "x \<in> set L" "butlast (b_key (bkt s x)) \<noteq> butlast (b_key (bkt s lb))"
        using setL' by auto
      then show "family_wf s' L' x"
      proof cases
        case 1
        have f1: "first_bucket_in_family s' n = f"
          by (simp add: first_bucket_in_family_def new fresh_bucket_fields)
        have l1: "last_bucket_in_family s' n = n"
          by (simp add: last_bucket_in_family_def get_bucket_family_pointer_def f1 lastf)
        have kf: "b_key (bkt s' f) = b_key (bkt s f)" using acc [OF fn] by simp
        show ?thesis
          unfolding 1 family_wf_def f1 l1
          using mx fL setL' fparts fcount nkp kf
          by (simp add: new fresh_bucket_fields)
      next
        case 2
        have xn': "x \<noteq> n" using xn [OF 2(1)] .
        have f2: "first_bucket_in_family s' x = f"
          using first' [OF xn'] famfirst [OF 2] by simp
        have l2: "last_bucket_in_family s' x = n"
          by (simp add: last_bucket_in_family_def get_bucket_family_pointer_def f2 lastf)
        have kf: "b_key (bkt s' f) = b_key (bkt s f)" using acc [OF fn] by simp
        have kx: "b_key (bkt s' x) = b_key (bkt s x)" using acc [OF xn'] by simp
        have zx: "b_size (bkt s' x) = b_size (bkt s x)" "b_capacity (bkt s' x) = b_capacity (bkt s x)"
          using acc [OF xn'] by simp_all
        have pk: "b_size (bkt s x) = b_capacity (bkt s x) \<and> 0 < b_size (bkt s x)"
        proof (cases "x = lb")
          case True
          have "b_size (bkt s lb) \<le> b_capacity (bkt s lb)"
            using rank_inv_size_le [OF ri] lbL L_def by simp
          then show ?thesis using True full by simp
        next
          case False
          have "last_bucket_in_family s x = lb"
            using family_same_last [OF ri, of x lb] 2 lbL L_def lblast by simp
          moreover have "family_wf s L x" using rank_inv_bucket [OF ri] 2(1) L_def by simp
          ultimately show ?thesis using False by (simp add: family_wf_def)
        qed
        have mx2: "\<forall>b' \<in> set L'. butlast (b_key (bkt s' b')) = butlast (b_key (bkt s x)) \<longrightarrow>
                family_count (b_key (bkt s' b')) \<le> family_count (b_key (bkt s' n))"
          using mx 2(2) nkp by simp
        show ?thesis
          unfolding family_wf_def f2 l2 kf kx zx
          using mx2 fL setL' fparts fcount nkp 2(2) pk
          by (simp add: new fresh_bucket_fields)
      next
        case 3
        have xn': "x \<noteq> n" using xn [OF 3(1)] .
        have fwx: "family_wf s L x" using rank_inv_bucket [OF ri] 3(1) L_def by simp
        let ?fx = "first_bucket_in_family s x"
        have fxL: "?fx \<in> set L" and fxp: "butlast (b_key (bkt s ?fx)) = butlast (b_key (bkt s x))"
          using fwx by (simp_all add: family_wf_def)
        have fxf: "?fx \<noteq> f" using fxp fparts 3(2) by auto
        have fxn: "?fx \<noteq> n" using xn [OF fxL] .
        have f3: "first_bucket_in_family s' x = ?fx" using first' [OF xn'] .
        have l3: "last_bucket_in_family s' x = last_bucket_in_family s x"
          using accl [OF fxn fxf]
          by (simp add: last_bucket_in_family_def get_bucket_family_pointer_def f3)
        have lL: "last_bucket_in_family s x \<in> set L" using fwx by (simp add: family_wf_def)
        have kk: "b_key (bkt s' ?fx) = b_key (bkt s ?fx)"
          "b_key (bkt s' (last_bucket_in_family s x)) = b_key (bkt s (last_bucket_in_family s x))"
          "b_key (bkt s' x) = b_key (bkt s x)"
          "b_size (bkt s' x) = b_size (bkt s x)" "b_capacity (bkt s' x) = b_capacity (bkt s x)"
          using acc [OF fxn] acc [OF xn [OF lL]] acc [OF xn'] by simp_all
        have nn: "butlast (b_key (bkt s' n)) \<noteq> butlast (b_key (bkt s x))"
          using 3(2) nkp by (simp add: new fresh_bucket_fields)
        show ?thesis
          using fwx unfolding family_wf_def f3 l3 kk setL'
          using nn oldk by auto
      qed
    qed
    show ?thesis using so wf fw by (simp add: rank_inv_def Lq)
  qed
  then show ?thesis by (simp add: repo_inv_def mb)
qed

lemma malloc_taken_search [simp]:
  "search_position (malloc_taken s) r p = search_position s r p"
  "find_last_bucket (malloc_taken s) r p = find_last_bucket s r p"
  "counters_below_max (malloc_taken s) r = counters_below_max s r"
  by (simp_all add: search_position_def find_last_bucket_def counters_below_max_def
      lower_bound_def repo_simps Let_def)

lemma malloc_taken_same_structure: "heap s x \<noteq> None \<Longrightarrow> same_structure s (malloc_taken s) x"
  by (simp add: same_structure_def repo_simps)

lemma malloc_taken_inv: "repo_inv s \<Longrightarrow> repo_inv (malloc_taken s)"
proof -
  assume inv: "repo_inv s"
  have "rank_inv (malloc_taken s) r" if r: "r < length (m_buckets s)" for r
  proof (rule rank_inv_frame [OF repo_inv_rank [OF inv r]])
    show "\<forall>b \<in> set (m_buckets s ! r). same_structure s (malloc_taken s) b"
      using rank_inv_below_next [OF repo_inv_rank [OF inv r]] malloc_taken_same_structure
      by blast
  qed (simp_all add: repo_simps)
  then show ?thesis by (simp add: repo_inv_def repo_simps)
qed

text \<open>
  \<open>declare_bucket\<close> keeps the invariants, in a rank where no family count has reached
  the largest unsigned value and for a part list whose key length fits an \<open>unsigned\<close>.
\<close>

lemma declare_bucket_preserves:
  assumes inv: "repo_inv s" and cm: "counters_below_max s r"
    and len: "length p < 4294967295"
    and d: "declare_bucket s r p fs = Ok b s'"
  shows "repo_inv s'"
proof -
  have r: "r < length (m_buckets s)"
    using d declare_bucket_bad_rank [of r s p fs] by auto
  show ?thesis
  proof (cases "find_last_bucket s r p")
    case None
    from d obtain fm where
      a: "allocate_bucket (malloc_taken s) r (make_key p 0) fm None
            (search_position s r p) = Ok b s'"
      unfolding declare_bucket_new_family [OF None r]
      by (auto split: if_splits sum.splits)
    show ?thesis
    proof (rule allocate_first_preserves [OF malloc_taken_inv [OF inv]])
      show "r < length (m_buckets (malloc_taken s))" using r by (simp add: repo_simps)
      show "counters_below_max (malloc_taken s) r" using cm by simp
      show "find_last_bucket (malloc_taken s) r p = None" using None by simp
      show "key_ok (make_key p 0)" using len by (rule make_key_ok)
      show "allocate_bucket (malloc_taken s) r (make_key p 0) fm None
              (search_position (malloc_taken s) r p) = Ok b s'"
        using a by simp
    qed
  next
    case (Some lb)
    show ?thesis
    proof (cases "b_size (bkt s lb) < b_capacity (bkt s lb)")
      case True
      then have "s' = s" using d unfolding declare_bucket_existing_family [OF Some r]
        by (auto split: if_splits)
      then show ?thesis using inv by simp
    next
      case False
      then have nz: "b_size (bkt s lb) \<noteq> 0"
        and a: "allocate_bucket s r (make_key p (1 + family_count (b_key (bkt s lb))))
                  (b_field_map (bkt s lb)) (Some lb) (search_position s r p) = Ok b s'"
        using d unfolding declare_bucket_existing_family [OF Some r]
        by (auto split: if_splits)
      show ?thesis using allocate_next_preserves [OF inv r cm Some nz False a] .
    qed
  qed
qed

text \<open>What a failing \<open>declare_bucket\<close> leaves behind.\<close>

lemma declare_bucket_Throw:
  assumes "declare_bucket s r p fs = Throw e s'"
  shows "s' = s \<or> (s' = malloc_taken s \<and> find_last_bucket s r p = None)"
proof (cases "r < length (m_buckets s)")
  case False
  then show ?thesis using assms by (simp add: declare_bucket_def)
next
  case r: True
  show ?thesis
  proof (cases "find_last_bucket s r p")
    case None
    show ?thesis
      using assms None unfolding declare_bucket_new_family [OF None r]
      by (auto simp: allocate_bucket_Throw split: if_splits sum.splits)
  next
    case (Some lb)
    show ?thesis
      using assms unfolding declare_bucket_existing_family [OF Some r]
      by (auto simp: allocate_bucket_Throw split: if_splits)
  qed
qed

subsection \<open>destroy-bucket keeps the invariants\<close>

lemma free_bucket_fields [repo_simps]:
  "m_buckets (free_bucket s b) = m_buckets s"
  "m_bucket_capacity (free_bucket s b) = m_bucket_capacity s"
  "entity_bucket (free_bucket s b) = entity_bucket s"
  "heap (free_bucket s b) = (heap s)(b := None)"
  "trace (free_bucket s b) = trace s"
  "next_addr (free_bucket s b) = next_addr s"
  "mem_avail (free_bucket s b) = Suc (mem_avail s)"
  "sizeof_entity_ptr (free_bucket s b) = sizeof_entity_ptr s"
  by (simp_all add: free_bucket_def)

lemma bkt_free_bucket [repo_simps]: "x \<noteq> b \<Longrightarrow> bkt (free_bucket s b) x = bkt s x"
  by (simp add: free_bucket_def bkt_def)

text \<open>The checks of \<open>destroy_bucket\<close> before it changes anything.\<close>

definition destroy_checks :: "repo \<Rightarrow> nat \<Rightarrow> bucket_ptr \<Rightarrow> bool" where
  "destroy_checks s r b =
     (r < length (m_buckets s) \<and> b_size (bkt s b) = 0 \<and>
      b = get_bucket_family_pointer s (first_bucket_in_family s b) \<and>
      lower_bound s (m_buckets s ! r) (b_key (bkt s b)) < length (m_buckets s ! r) \<and>
      b = (m_buckets s ! r) ! lower_bound s (m_buckets s ! r) (b_key (bkt s b)))"

lemma destroy_bucket_early:
  "\<not> destroy_checks s r b \<Longrightarrow> \<exists>e. destroy_bucket s r b = Throw e s"
  using lower_bound_le [of s "m_buckets s ! r" "b_key (bkt s b)"]
  by (auto simp: destroy_checks_def destroy_bucket_def Let_def)

lemma destroy_bucket_late:
  assumes "destroy_checks s r b"
  shows "destroy_bucket s r b =
     (let bucket_set = m_buckets s ! r;
          first = first_bucket_in_family s b;
          ik = lower_bound s bucket_set (b_key (bkt s b));
          erased = take ik bucket_set @ drop (Suc ik) bucket_set;
          s1 = s\<lparr> m_buckets := (m_buckets s)[r := erased] \<rparr>
      in if first \<noteq> b then
           (if ik = 0 then Throw DestroyBucketLogic s1
            else
              (let s2 = set_last_bucket_in_family s1 first (erased ! (ik - 1))
               in if b_size (bkt s2 (get_bucket_family_pointer s2 first)) = 0
                  then Throw DestroyBucketLogic s2
                  else Ok () (free_bucket s2 b)))
         else Ok () (free_bucket s1 b))"
  using assms by (simp add: destroy_checks_def destroy_bucket_def Let_def)

lemma keys_sorted_erase:
  assumes "keys_sorted s bs"
  shows "keys_sorted s (take i bs @ drop (Suc i) bs)"
proof (cases "i < length bs")
  case False
  then show ?thesis using assms by simp
next
  case True
  let ?P = "\<lambda>a b. bucket_key_less (b_key (bkt s a)) (b_key (bkt s b))"
  have "bs = take i bs @ bs ! i # drop (Suc i) bs" using True by (simp add: id_take_nth_drop)
  then have "sorted_wrt ?P (take i bs @ bs ! i # drop (Suc i) bs)"
    using assms by (simp add: keys_sorted_def)
  then show ?thesis
    unfolding keys_sorted_def sorted_wrt_append by auto
qed

lemma set_remove_middle: "distinct (ys @ x # zs) \<Longrightarrow> set (ys @ zs) = set (ys @ x # zs) - {x}"
  by auto

lemma set_erase_distinct:
  assumes "distinct bs" and "i < length bs"
  shows "set (take i bs @ drop (Suc i) bs) = set bs - {bs ! i}"
proof -
  have e: "take i bs @ bs ! i # drop (Suc i) bs = bs"
    using id_take_nth_drop [OF assms(2)] by (rule sym)
  have "distinct (take i bs @ bs ! i # drop (Suc i) bs)"
    using assms(1) by (simp only: e)
  from set_remove_middle [OF this] show ?thesis by (simp only: e)
qed

text \<open>
  The state after a \<open>destroy_bucket\<close> that passes all its checks.
\<close>

definition destroyed :: "repo \<Rightarrow> nat \<Rightarrow> bucket_ptr \<Rightarrow> repo" where
  "destroyed s r b =
     (let bucket_set = m_buckets s ! r;
          first = first_bucket_in_family s b;
          ik = lower_bound s bucket_set (b_key (bkt s b));
          erased = take ik bucket_set @ drop (Suc ik) bucket_set;
          s1 = s\<lparr> m_buckets := (m_buckets s)[r := erased] \<rparr>
      in free_bucket
           (if first \<noteq> b then set_last_bucket_in_family s1 first (erased ! (ik - 1)) else s1) b)"

lemma index_of_bucket:
  assumes "keys_sorted s bs" and "b \<in> set bs"
  shows "lower_bound s bs (b_key (bkt s b)) < length bs \<and>
         bs ! lower_bound s bs (b_key (bkt s b)) = b"
proof -
  obtain i where "i < length bs" and "bs ! i = b" using assms(2) by (auto simp: in_set_conv_nth)
  then show ?thesis using lower_bound_self [OF assms(1), of i] by simp
qed

lemma key_less_index:
  assumes "keys_sorted s bs" and "i < length bs" and "x \<in> set bs"
    and "bucket_key_less (b_key (bkt s x)) (b_key (bkt s (bs ! i)))"
  shows "x \<in> set (take i bs)"
proof -
  obtain j where j: "j < length bs" and xj: "bs ! j = x" using assms(3) by (auto simp: in_set_conv_nth)
  have "j < i"
  proof (rule ccontr)
    assume "\<not> j < i"
    then consider "j = i" | "i < j" by arith
    then show False
    proof cases
      case 1
      then show ?thesis using assms(4) xj bkl_irrefl by simp
    next
      case 2
      then have "bucket_key_less (b_key (bkt s (bs ! i))) (b_key (bkt s (bs ! j)))"
        using assms(1) j unfolding keys_sorted_def by (simp add: sorted_wrt_iff_nth_less)
      then show ?thesis using assms(4) xj bkl_asym by blast
    qed
  qed
  then show ?thesis using j xj by (auto simp: in_set_conv_nth)
qed

lemma destroy_bucket_preserves:
  assumes inv: "repo_inv s" and r: "r < length (m_buckets s)"
    and bL: "b \<in> set (m_buckets s ! r)"
    and z: "b_size (bkt s b) = 0"
    and bl: "last_bucket_in_family s b = b"
  shows "destroy_bucket s r b = Ok () (destroyed s r b) \<and> repo_inv (destroyed s r b)"
proof -
  define L where "L = m_buckets s ! r"
  define f where "f = first_bucket_in_family s b"
  define i where "i = lower_bound s L (b_key (bkt s b))"
  define L' where "L' = take i L @ drop (Suc i) L"
  define s' where "s' = destroyed s r b"
  have ri: "rank_inv s r" using repo_inv_rank [OF inv r] .
  have so: "keys_sorted s L" using rank_inv_sorted [OF ri] L_def by simp
  have dL: "distinct L" using keys_sorted_distinct [OF so] .
  have iL: "i < length L" and Li: "L ! i = b"
    using index_of_bucket [OF so] bL by (simp_all add: i_def L_def)
  have setL': "set L' = set L - {b}" using set_erase_distinct [OF dL iL] Li by (simp add: L'_def)
  have fwb: "family_wf s L b" using rank_inv_bucket [OF ri bL] L_def by simp
  have fL: "f \<in> set L" and fparts: "butlast (b_key (bkt s f)) = butlast (b_key (bkt s b))"
    and fcount: "family_count (b_key (bkt s f)) = 0"
    and bmax: "\<forall>y \<in> set L. butlast (b_key (bkt s y)) = butlast (b_key (bkt s b)) \<longrightarrow>
                 family_count (b_key (bkt s y)) \<le> family_count (b_key (bkt s b))"
    using fwb bl by (simp_all add: family_wf_def f_def)
  have chk: "destroy_checks s r b"
    using r z bl iL Li
    by (simp add: destroy_checks_def i_def L_def last_bucket_in_family_def)
  have nonempty: "x \<in> set L \<Longrightarrow> b_key (bkt s x) \<noteq> []" for x
    using key_ok_nonempty rank_inv_key_ok [OF ri] L_def by blast
  text \<open>A bucket of the family of \<open>b\<close> other than \<open>b\<close> lies before \<open>b\<close>.\<close>
  have fam_before: "x \<in> set (take i L)"
    if x: "x \<in> set L" "x \<noteq> b" "butlast (b_key (bkt s x)) = butlast (b_key (bkt s b))" for x
  proof -
    have "family_count (b_key (bkt s x)) \<le> family_count (b_key (bkt s b))" using bmax x by simp
    moreover have "b_key (bkt s x) \<noteq> b_key (bkt s b)"
      using keys_sorted_inj [OF so x(1)] bL x(2) L_def by auto
    ultimately have "family_count (b_key (bkt s x)) < family_count (b_key (bkt s b))"
      using key_eq_parts_count [OF nonempty [OF x(1)] nonempty x(3)] bL L_def
      by (metis order_le_imp_less_or_eq)
    then have "bucket_key_less (b_key (bkt s x)) (b_key (bkt s (L ! i)))"
      using key_less_count [OF nonempty [OF x(1)] nonempty x(3)] bL L_def Li by simp
    then show ?thesis using key_less_index [OF so iL x(1)] by simp
  qed
  text \<open>The bucket before \<open>b\<close>, when \<open>b\<close> is not the first bucket of its family.\<close>
  define nl where "nl = L ! (i - 1)"
  have prev: "i \<noteq> 0 \<and> nl \<in> set L \<and> nl \<noteq> b \<and> nl \<in> set (take i L) \<and>
              butlast (b_key (bkt s nl)) = butlast (b_key (bkt s b)) \<and>
              (\<forall>y \<in> set (take i L). \<not> bucket_key_less (b_key (bkt s nl)) (b_key (bkt s y)))"
    if fb: "f \<noteq> b"
  proof -
    have ft: "f \<in> set (take i L)" using fam_before [OF fL fb fparts] .
    have i0: "i \<noteq> 0"
    proof
      assume "i = 0"
      then show False using ft by simp
    qed
    have nt: "nl \<in> set (take i L)"
      using i0 iL unfolding nl_def
      by (metis One_nat_def Suc_pred diff_less in_set_conv_nth length_take less_Suc_eq
          less_imp_le_nat min.absorb2 neq0_conv nth_take zero_less_one)
    then have nL: "nl \<in> set L" by (meson in_set_takeD)
    have below: "\<forall>y \<in> set (take i L). \<not> bucket_key_less (b_key (bkt s nl)) (b_key (bkt s y))"
      using take_below_last [OF so _ , of i] iL nl_def by simp
    have "i - 1 < i" using i0 by simp
    from so [unfolded keys_sorted_def sorted_wrt_iff_nth_less, rule_format, OF this iL]
    have lt: "bucket_key_less (b_key (bkt s nl)) (b_key (bkt s b))"
      by (simp only: nl_def Li)
    then have nb: "nl \<noteq> b" using bkl_irrefl by auto
    have "butlast (b_key (bkt s nl)) = butlast (b_key (bkt s f))"
    proof (rule key_between)
      show "key_ok (b_key (bkt s f))" "key_ok (b_key (bkt s nl))" "key_ok (b_key (bkt s b))"
        using rank_inv_key_ok [OF ri] fL nL bL L_def by simp_all
      show "butlast (b_key (bkt s f)) = butlast (b_key (bkt s b))" by (rule fparts)
      show "\<not> bucket_key_less (b_key (bkt s nl)) (b_key (bkt s f))" using below ft by simp
      show "\<not> bucket_key_less (b_key (bkt s b)) (b_key (bkt s nl))" using lt bkl_asym by blast
    qed
    then show ?thesis using i0 nL nb nt below fparts by simp
  qed
  text \<open>The new state.\<close>
  have s'eq: "s' = free_bucket
           (if f \<noteq> b then set_last_bucket_in_family (s\<lparr> m_buckets := (m_buckets s)[r := L'] \<rparr>) f nl
            else s\<lparr> m_buckets := (m_buckets s)[r := L'] \<rparr>) b"
  proof -
    have "L' ! (i - 1) = nl" if "f \<noteq> b"
      using prev [OF that] iL by (simp add: L'_def nl_def nth_append)
    then show ?thesis
      by (simp add: s'_def destroyed_def Let_def L_def [symmetric] f_def [symmetric]
          i_def [symmetric] L'_def [symmetric])
  qed
  have mb: "m_buckets s' = (m_buckets s)[r := L']" and na: "next_addr s' = next_addr s"
    and cap: "m_bucket_capacity s' = m_bucket_capacity s"
    by (simp_all add: s'eq repo_simps set_last_bucket_in_family_def)
  have fheap: "heap s f \<noteq> None" using rank_inv_below_next [OF ri] fL L_def by blast
  have old_heap: "x \<noteq> b \<Longrightarrow> heap s' x \<noteq> None \<longleftrightarrow> heap s x \<noteq> None" for x
    using fheap by (auto simp: s'eq repo_simps set_last_bucket_in_family_def)
  have acc: "x \<noteq> b \<Longrightarrow> b_key (bkt s' x) = b_key (bkt s x) \<and> b_size (bkt s' x) = b_size (bkt s x)
      \<and> b_capacity (bkt s' x) = b_capacity (bkt s x)
      \<and> b_entity_rank (bkt s' x) = b_entity_rank (bkt s x)
      \<and> b_first (bkt s' x) = b_first (bkt s x)" for x
    by (simp add: s'eq repo_simps set_last_bucket_in_family_def)
  have accl: "x \<noteq> b \<Longrightarrow> x \<noteq> f \<Longrightarrow> b_last (bkt s' x) = b_last (bkt s x)" for x
    by (simp add: s'eq repo_simps set_last_bucket_in_family_def)
  have lastf: "f \<noteq> b \<Longrightarrow> b_last (bkt s' f) = nl"
    by (simp add: s'eq repo_simps set_last_bucket_in_family_def)
  have first': "x \<noteq> b \<Longrightarrow> first_bucket_in_family s' x = first_bucket_in_family s x" for x
    using acc [of x] by (simp add: first_bucket_in_family_def)
  text \<open>The call succeeds.\<close>
  have ok: "destroy_bucket s r b = Ok () s'"
  proof (cases "f = b")
    case True
    then show ?thesis
      unfolding destroy_bucket_late [OF chk]
      by (simp add: Let_def s'_def destroyed_def f_def)
  next
    case False
    note p = prev [OF False]
    have e: "(take i L @ drop (Suc i) L) ! (i - 1) = nl"
      using p iL by (simp add: nl_def nth_append)
    have fwn: "family_wf s L nl" using rank_inv_bucket [OF ri] p L_def by simp
    have "last_bucket_in_family s nl = b"
      using family_same_last [OF ri, of nl b] p bL bl L_def by simp
    then have "0 < b_size (bkt s nl)" using fwn p by (simp add: family_wf_def)
    then have "b_size (bkt (set_last_bucket_in_family (s\<lparr> m_buckets := (m_buckets s)[r := L'] \<rparr>) f nl) nl) \<noteq> 0"
      by (auto simp: set_last_bucket_in_family_def repo_simps)
    moreover have "get_bucket_family_pointer
        (set_last_bucket_in_family (s\<lparr> m_buckets := (m_buckets s)[r := L'] \<rparr>) f nl) f = nl"
      by (simp add: get_bucket_family_pointer_def set_last_bucket_in_family_def repo_simps)
    ultimately show ?thesis
      unfolding destroy_bucket_late [OF chk]
      using False p e
      by (simp add: Let_def s'_def destroyed_def f_def [symmetric] L_def [symmetric]
          i_def [symmetric] L'_def [symmetric])
  qed
  text \<open>The invariants hold again.\<close>
  have frank: "b_entity_rank (bkt s f) = r" and brank: "b_entity_rank (bkt s b) = r"
    using rank_inv_bucket [OF ri] fL bL L_def by (simp_all add: bucket_wf_def)
  have "rank_inv s' q" if q: "q < length (m_buckets s)" for q
  proof (cases "q = r")
    case False
    have mq: "m_buckets s' ! q = m_buckets s ! q" using False by (simp add: mb)
    have "\<forall>x \<in> set (m_buckets s ! q). same_structure s s' x"
    proof
      fix x assume x: "x \<in> set (m_buckets s ! q)"
      have "b_entity_rank (bkt s x) = q"
        using rank_inv_bucket [OF repo_inv_rank [OF inv q] x] by (simp add: bucket_wf_def)
      then have xf: "x \<noteq> f" and xb: "x \<noteq> b" using frank brank False by auto
      have "heap s x \<noteq> None" using rank_inv_below_next [OF repo_inv_rank [OF inv q] x] by simp
      then show "same_structure s s' x"
        using acc [OF xb] accl [OF xb xf] old_heap [OF xb] by (simp add: same_structure_def)
    qed
    then show ?thesis
      using rank_inv_frame [OF repo_inv_rank [OF inv q] mq] na cap by simp
  next
    case True
    have Lq: "m_buckets s' ! q = L'" using True r by (simp add: mb)
    have xb: "x \<in> set L' \<Longrightarrow> x \<noteq> b \<and> x \<in> set L" for x using setL' by auto
    have oldk: "\<forall>x \<in> set L'. b_key (bkt s' x) = b_key (bkt s x)" using acc xb by simp
    have so': "keys_sorted s' L'"
      using keys_sorted_erase [OF so, of i] keys_sorted_cong [OF oldk] by (simp add: L'_def)
    have wf: "\<forall>x \<in> set L'. bucket_wf s' q x"
    proof
      fix x assume x: "x \<in> set L'"
      then have "bucket_wf s r x" using rank_inv_bucket [OF ri] xb L_def by simp
      then show "bucket_wf s' q x"
        using acc [of x] old_heap [of x] xb [OF x] na cap True by (simp add: bucket_wf_def)
    qed
    have fw: "\<forall>x \<in> set L'. family_wf s' L' x"
    proof
      fix x assume x: "x \<in> set L'"
      have xL: "x \<in> set L" and xnb: "x \<noteq> b" using xb [OF x] by simp_all
      have fwx: "family_wf s L x" using rank_inv_bucket [OF ri] xL L_def by simp
      let ?fx = "first_bucket_in_family s x"
      have fxL: "?fx \<in> set L" and fxp: "butlast (b_key (bkt s ?fx)) = butlast (b_key (bkt s x))"
        using fwx by (simp_all add: family_wf_def)
      have kx: "b_key (bkt s' x) = b_key (bkt s x)" "b_size (bkt s' x) = b_size (bkt s x)"
        "b_capacity (bkt s' x) = b_capacity (bkt s x)"
        using acc [OF xnb] by simp_all
      show "family_wf s' L' x"
      proof (cases "butlast (b_key (bkt s x)) = butlast (b_key (bkt s b))")
        case True
        have fxf: "?fx = f" using family_same_first [OF ri, of x b] xL bL True L_def f_def by simp
        have fb: "f \<noteq> b"
        proof
          assume "f = b"
          then have "family_count (b_key (bkt s b)) = 0" using fcount by simp
          then have "family_count (b_key (bkt s x)) = 0"
            using bmax xL True by (metis word_le_0_iff)
          then have "b_key (bkt s x) = b_key (bkt s b)"
            using key_eq_parts_count [OF nonempty [OF xL] nonempty [OF bL [folded L_def]] True]
              \<open>family_count (b_key (bkt s b)) = 0\<close> by simp
          then show False using keys_sorted_inj [OF so xL] bL xnb L_def by auto
        qed
        note p = prev [OF fb]
        have f1: "first_bucket_in_family s' x = f" using first' [OF xnb] fxf by simp
        have l1: "last_bucket_in_family s' x = nl"
          by (simp add: last_bucket_in_family_def get_bucket_family_pointer_def f1 lastf [OF fb])
        have kf: "b_key (bkt s' f) = b_key (bkt s f)" using acc [OF fb] by simp
        have kn: "b_key (bkt s' nl) = b_key (bkt s nl)" using acc [of nl] p by simp
        have mx: "\<forall>y \<in> set L'. butlast (b_key (bkt s' y)) = butlast (b_key (bkt s x)) \<longrightarrow>
                    family_count (b_key (bkt s' y)) \<le> family_count (b_key (bkt s nl))"
        proof (intro ballI impI)
          fix y assume y: "y \<in> set L'"
            and eq: "butlast (b_key (bkt s' y)) = butlast (b_key (bkt s x))"
          have yL: "y \<in> set L" and ynb: "y \<noteq> b" using xb [OF y] by simp_all
          have ky: "b_key (bkt s' y) = b_key (bkt s y)" using acc [OF ynb] by simp
          have yp: "butlast (b_key (bkt s y)) = butlast (b_key (bkt s b))"
            using eq ky True by simp
          have "y \<in> set (take i L)" using fam_before [OF yL ynb yp] .
          then have "\<not> bucket_key_less (b_key (bkt s nl)) (b_key (bkt s y))" using p by simp
          then have "\<not> family_count (b_key (bkt s nl)) < family_count (b_key (bkt s y))"
            using key_less_count [OF nonempty nonempty, of nl y] p yL yp by simp
          then show "family_count (b_key (bkt s' y)) \<le> family_count (b_key (bkt s nl))"
            using ky by simp
        qed
        have pk: "b_size (bkt s x) = b_capacity (bkt s x) \<and> 0 < b_size (bkt s x)"
        proof -
          have "last_bucket_in_family s x = b"
            using family_same_last [OF ri, of x b] xL bL True bl L_def by simp
          then show ?thesis using fwx xnb by (simp add: family_wf_def)
        qed
        have nL': "nl \<in> set L'" and fL': "f \<in> set L'" using p fL fb setL' by auto
        show ?thesis
          unfolding family_wf_def f1 l1 kx kf kn
          using mx nL' fL' fparts fcount True p pk by simp
      next
        case False
        have fxf: "?fx \<noteq> f" using fxp fparts False by auto
        have fxb: "?fx \<noteq> b" using fxp False by auto
        let ?lx = "last_bucket_in_family s x"
        have lxL: "?lx \<in> set L" and lxp: "butlast (b_key (bkt s ?lx)) = butlast (b_key (bkt s x))"
          using fwx by (simp_all add: family_wf_def)
        have lxb: "?lx \<noteq> b" using lxp False by auto
        have f3: "first_bucket_in_family s' x = ?fx" using first' [OF xnb] .
        have l3: "last_bucket_in_family s' x = ?lx"
          using accl [OF fxb fxf]
          by (simp add: last_bucket_in_family_def get_bucket_family_pointer_def f3)
        have kk: "b_key (bkt s' ?fx) = b_key (bkt s ?fx)" "b_key (bkt s' ?lx) = b_key (bkt s ?lx)"
          using acc [OF fxb] acc [OF lxb] by simp_all
        show ?thesis
          using fwx unfolding family_wf_def f3 l3 kk kx setL'
          using oldk fxb lxb setL' by auto
      qed
    qed
    show ?thesis using so' wf fw by (simp add: rank_inv_def Lq)
  qed
  then have "repo_inv s'" by (simp add: repo_inv_def mb)
  then show ?thesis using ok by (simp add: s'_def)
qed

lemma destroy_bucket_Throw_unchanged:
  assumes inv: "repo_inv s" and t: "destroy_bucket s r b = Throw e s'"
  shows "s' = s"
proof (cases "destroy_checks s r b")
  case False
  then show ?thesis using destroy_bucket_early [OF False] t by auto
next
  case True
  then have r: "r < length (m_buckets s)" and z: "b_size (bkt s b) = 0"
    and l: "last_bucket_in_family s b = b"
    and i: "lower_bound s (m_buckets s ! r) (b_key (bkt s b)) < length (m_buckets s ! r)"
    and b: "b = (m_buckets s ! r) ! lower_bound s (m_buckets s ! r) (b_key (bkt s b))"
    by (simp_all add: destroy_checks_def last_bucket_in_family_def)
  have "b \<in> set (m_buckets s ! r)" using i b by (metis nth_mem)
  then show ?thesis using destroy_bucket_preserves [OF inv r _ z l] t by simp
qed

subsection \<open>States with the same skeleton\<close>

text \<open>
  Two states have the same skeleton when they differ at most in the entity pointers and
  field data of the slots, the back-references of the entities and the trace.
\<close>

definition same_skeleton :: "repo \<Rightarrow> repo \<Rightarrow> bool" where
  "same_skeleton s s' =
     (m_buckets s' = m_buckets s \<and> next_addr s' = next_addr s \<and>
      mem_avail s' = mem_avail s \<and> m_bucket_capacity s' = m_bucket_capacity s \<and>
      sizeof_entity_ptr s' = sizeof_entity_ptr s \<and>
      (\<forall>b. (heap s' b = None \<longleftrightarrow> heap s b = None) \<and>
           b_key (bkt s' b) = b_key (bkt s b) \<and>
           b_size (bkt s' b) = b_size (bkt s b) \<and>
           b_capacity (bkt s' b) = b_capacity (bkt s b) \<and>
           b_entity_rank (bkt s' b) = b_entity_rank (bkt s b) \<and>
           b_first (bkt s' b) = b_first (bkt s b) \<and>
           b_last (bkt s' b) = b_last (bkt s b) \<and>
           b_field_map (bkt s' b) = b_field_map (bkt s b) \<and>
           length (b_entities (bkt s' b)) = length (b_entities (bkt s b))))"

lemma same_skeleton_refl: "same_skeleton s s"
  by (simp add: same_skeleton_def)

lemma same_skeleton_trans: "same_skeleton s t \<Longrightarrow> same_skeleton t u \<Longrightarrow> same_skeleton s u"
  by (simp add: same_skeleton_def)

lemma same_skeleton_sym: "same_skeleton s t \<Longrightarrow> same_skeleton t s"
  by (simp add: same_skeleton_def)

lemma same_skeleton_structure: "same_skeleton s s' \<Longrightarrow> heap s b \<noteq> None \<Longrightarrow> same_structure s s' b"
  by (simp add: same_skeleton_def same_structure_def)

lemma same_skeleton_inv:
  assumes inv: "repo_inv s" and sk: "same_skeleton s s'"
  shows "repo_inv s'"
proof -
  have "rank_inv s' r" if r: "r < length (m_buckets s)" for r
  proof (rule rank_inv_frame [OF repo_inv_rank [OF inv r]])
    show "\<forall>b \<in> set (m_buckets s ! r). same_structure s s' b"
      using rank_inv_below_next [OF repo_inv_rank [OF inv r]] same_skeleton_structure [OF sk]
      by blast
  qed (use sk in \<open>simp_all add: same_skeleton_def\<close>)
  then show ?thesis using sk by (simp add: repo_inv_def same_skeleton_def)
qed

lemma same_skeleton_pointers:
  assumes "same_skeleton s s'"
  shows "first_bucket_in_family s' b = first_bucket_in_family s b"
    and "last_bucket_in_family s' b = last_bucket_in_family s b"
    and "lower_bound s' bs key = lower_bound s bs key"
    and "search_position s' r p = search_position s r p"
    and "find_last_bucket s' r p = find_last_bucket s r p"
    and "counters_below_max s' r = counters_below_max s r"
    and "family_slots s' bs = family_slots s bs"
  using assms
  by (simp_all add: same_skeleton_def first_bucket_in_family_def last_bucket_in_family_def
      get_bucket_family_pointer_def lower_bound_def search_position_def find_last_bucket_def
      counters_below_max_def family_slots_def Let_def)

lemma replace_entity_skeleton: "heap s b \<noteq> None \<Longrightarrow> same_skeleton s (replace_entity s b i e)"
  by (simp add: same_skeleton_def replace_entity_def repo_simps)

lemma copy_fields_skeleton: "heap s b \<noteq> None \<Longrightarrow> same_skeleton s (copy_fields s b i k j)"
  by (simp add: same_skeleton_def copy_fields_def repo_simps)

lemma change_entity_bucket_skeleton: "same_skeleton s (change_entity_bucket s b e i)"
  by (simp add: same_skeleton_def change_entity_bucket_def repo_simps bkt_def log_event_def)

lemma propagate_skeleton: "same_skeleton s (internal_propagate_relocation s e)"
  by (simp add: same_skeleton_def internal_propagate_relocation_def repo_simps)

subsection \<open>remove-entity keeps the invariants\<close>

lemma decrement_size_fields:
  "m_buckets (decrement_size s b) = m_buckets s"
  "next_addr (decrement_size s b) = next_addr s"
  "mem_avail (decrement_size s b) = mem_avail s"
  "m_bucket_capacity (decrement_size s b) = m_bucket_capacity s"
  "entity_bucket (decrement_size s b) = entity_bucket s"
  "trace (decrement_size s b) = trace s @ [DecrementSize b]"
  "heap (decrement_size s b) = (heap s)(b \<mapsto> (bkt s b)\<lparr> b_size := b_size (bkt s b) - 1 \<rparr>)"
  "bkt (decrement_size s b) x = (if x = b then (bkt s b)\<lparr> b_size := b_size (bkt s b) - 1 \<rparr> else bkt s x)"
  by (simp_all add: decrement_size_def repo_simps)

lemma decrement_size_pointers:
  "first_bucket_in_family (decrement_size s b) x = first_bucket_in_family s x"
  "last_bucket_in_family (decrement_size s b) x = last_bucket_in_family s x"
  by (auto simp: first_bucket_in_family_def last_bucket_in_family_def
      get_bucket_family_pointer_def decrement_size_fields)

lemma last_of_last:
  assumes "rank_inv s r" and "k \<in> set (m_buckets s ! r)"
  shows "last_bucket_in_family s k \<in> set (m_buckets s ! r) \<and>
         last_bucket_in_family s (last_bucket_in_family s k) = last_bucket_in_family s k"
proof -
  have fw: "family_wf s (m_buckets s ! r) k" using rank_inv_bucket [OF assms] by simp
  then have l: "last_bucket_in_family s k \<in> set (m_buckets s ! r)"
    and p: "butlast (b_key (bkt s (last_bucket_in_family s k))) = butlast (b_key (bkt s k))"
    by (simp_all add: family_wf_def)
  show ?thesis using family_same_last [OF assms(1) l assms(2) p] l by simp
qed

lemma decrement_size_preserves:
  assumes inv: "repo_inv s" and r: "r < length (m_buckets s)"
    and bL: "b \<in> set (m_buckets s ! r)"
    and bl: "last_bucket_in_family s b = b"
  shows "repo_inv (decrement_size s b)"
proof -
  define s' where "s' = decrement_size s b"
  have ri: "rank_inv s r" using repo_inv_rank [OF inv r] .
  have mb: "m_buckets s' = m_buckets s" and na: "next_addr s' = next_addr s"
    and cap: "m_bucket_capacity s' = m_bucket_capacity s"
    by (simp_all add: s'_def decrement_size_fields)
  have bheap: "heap s b \<noteq> None" using rank_inv_below_next [OF ri bL] by simp
  have old_heap: "heap s' x \<noteq> None \<longleftrightarrow> heap s x \<noteq> None" for x
    using bheap by (simp add: s'_def decrement_size_fields)
  have acc: "b_key (bkt s' x) = b_key (bkt s x) \<and> b_capacity (bkt s' x) = b_capacity (bkt s x)
      \<and> b_entity_rank (bkt s' x) = b_entity_rank (bkt s x)
      \<and> b_first (bkt s' x) = b_first (bkt s x) \<and> b_last (bkt s' x) = b_last (bkt s x)" for x
    by (simp add: s'_def decrement_size_fields)
  have size: "b_size (bkt s' x) = (if x = b then b_size (bkt s b) - 1 else b_size (bkt s x))" for x
    by (simp add: s'_def decrement_size_fields)
  have first': "first_bucket_in_family s' x = first_bucket_in_family s x" for x
    using acc by (simp add: first_bucket_in_family_def)
  have last': "last_bucket_in_family s' x = last_bucket_in_family s x" for x
    using acc by (simp add: last_bucket_in_family_def get_bucket_family_pointer_def first')
  have brank: "b_entity_rank (bkt s b) = r"
    using rank_inv_bucket [OF ri bL] by (simp add: bucket_wf_def)
  have "rank_inv s' q" if q: "q < length (m_buckets s)" for q
  proof -
    let ?L = "m_buckets s ! q"
    have rq: "rank_inv s q" using repo_inv_rank [OF inv q] .
    have k: "\<forall>x \<in> set ?L. b_key (bkt s' x) = b_key (bkt s x)" using acc by simp
    have so: "keys_sorted s' ?L" using keys_sorted_cong [OF k] rank_inv_sorted [OF rq] by simp
    have wf: "\<forall>x \<in> set ?L. bucket_wf s' q x"
    proof
      fix x assume x: "x \<in> set ?L"
      have "bucket_wf s q x" using rank_inv_bucket [OF rq x] by simp
      then show "bucket_wf s' q x"
        using acc [of x] size [of x] old_heap [of x] na cap by (auto simp: bucket_wf_def)
    qed
    have fw: "\<forall>x \<in> set ?L. family_wf s' ?L x"
    proof
      fix x assume x: "x \<in> set ?L"
      have fwx: "family_wf s ?L x" using rank_inv_bucket [OF rq x] by simp
      have sx: "x \<noteq> last_bucket_in_family s x \<Longrightarrow> b_size (bkt s' x) = b_size (bkt s x)"
        using size [of x] bl by auto
      show "family_wf s' ?L x"
        using fwx sx unfolding family_wf_def first' last'
        using acc by auto
    qed
    show ?thesis using so wf fw by (simp add: rank_inv_def mb)
  qed
  then show ?thesis by (simp add: repo_inv_def mb s'_def [symmetric])
qed

lemma remove_entity_tail_preserves:
  assumes inv: "repo_inv s" and r: "r < length (m_buckets s)"
    and lL: "l \<in> set (m_buckets s ! r)"
    and ll: "last_bucket_in_family s l = l"
    and nz: "0 < b_size (bkt s l)"
  shows "\<exists>s'. remove_entity_tail s r l = Ok () s' \<and> repo_inv s'"
proof -
  define s1 where "s1 = decrement_size s l"
  define s2 where "s2 = replace_entity s1 l (b_size (bkt s1 l)) None"
  have i1: "repo_inv s1" unfolding s1_def by (rule decrement_size_preserves [OF inv r lL ll])
  have h1: "heap s1 l \<noteq> None" by (simp add: s1_def decrement_size_fields)
  have sk: "same_skeleton s1 s2" unfolding s2_def by (rule replace_entity_skeleton [OF h1])
  have i2: "repo_inv s2" using same_skeleton_inv [OF i1 sk] .
  have m2: "m_buckets s2 = m_buckets s" using sk by (simp add: same_skeleton_def s1_def decrement_size_fields)
  have z2: "b_size (bkt s2 l) = b_size (bkt s l) - 1"
    using sk by (simp add: same_skeleton_def s1_def decrement_size_fields)
  have l2: "last_bucket_in_family s2 l = l"
    using same_skeleton_pointers(2) [OF sk, of l] ll
    by (simp add: s1_def decrement_size_pointers)
  have t: "remove_entity_tail s r l =
           (if b_size (bkt s2 l) = 0 then destroy_bucket s2 r l else Ok () s2)"
    by (simp add: remove_entity_tail_def Let_def s1_def s2_def)
  show ?thesis
  proof (cases "b_size (bkt s2 l) = 0")
    case True
    have "destroy_bucket s2 r l = Ok () (destroyed s2 r l) \<and> repo_inv (destroyed s2 r l)"
      using destroy_bucket_preserves [OF i2 _ _ True l2] r lL m2 by simp
    then show ?thesis using t True by simp
  next
    case False
    then show ?thesis using t i2 by simp
  qed
qed

lemma remove_entity_preserves:
  assumes inv: "repo_inv s" and r: "r < length (m_buckets s)"
    and kL: "k \<in> set (m_buckets s ! r)"
  shows "(\<exists>s'. remove_entity s k i = Ok () s' \<and> repo_inv s') \<or>
         remove_entity s k i = Throw UndefinedBehaviour s"
proof -
  define l where "l = last_bucket_in_family s k"
  have ri: "rank_inv s r" using repo_inv_rank [OF inv r] .
  have lL: "l \<in> set (m_buckets s ! r)" and ll: "last_bucket_in_family s l = l"
    using last_of_last [OF ri kL] by (simp_all add: l_def)
  have kr: "b_entity_rank (bkt s k) = r"
    using rank_inv_bucket [OF ri kL] by (simp add: bucket_wf_def)
  have kh: "heap s k \<noteq> None" using rank_inv_below_next [OF ri kL] by simp
  show ?thesis
  proof (cases "l \<noteq> k \<or> b_size (bkt s k) \<noteq> i + 1")
    case False
    then have nz: "0 < b_size (bkt s l)" by simp
    have "remove_entity s k i = remove_entity_tail s r l"
      using False by (simp add: remove_entity_def Let_def l_def [symmetric] kr)
    then show ?thesis using remove_entity_tail_preserves [OF inv r lL ll nz] by simp
  next
    case True
    show ?thesis
    proof (cases "b_size (bkt s l) = 0 \<or> b_entities (bkt s l) ! (b_size (bkt s l) - 1) = None")
      case ub: True
      then have "remove_entity s k i = Throw UndefinedBehaviour s"
        using True by (auto simp: remove_entity_def Let_def l_def [symmetric])
      then show ?thesis by simp
    next
      case False
      then obtain e where e: "b_entities (bkt s l) ! (b_size (bkt s l) - 1) = Some e"
        and nz: "0 < b_size (bkt s l)" by auto
      define t1 where "t1 = copy_fields s k i l (b_size (bkt s l) - 1)"
      define t2 where "t2 = replace_entity t1 k i (Some e)"
      define t3 where "t3 = change_entity_bucket t2 k e i"
      define t4 where "t4 = internal_propagate_relocation t3 e"
      have k1: "same_skeleton s t1" unfolding t1_def by (rule copy_fields_skeleton [OF kh])
      have "heap t1 k \<noteq> None" using k1 kh by (simp add: same_skeleton_def)
      then have k2: "same_skeleton t1 t2" unfolding t2_def by (rule replace_entity_skeleton)
      have k4: "same_skeleton s t4"
        using k1 k2 change_entity_bucket_skeleton [of t2 k e i] propagate_skeleton [of t3 e]
        unfolding t3_def [symmetric] t4_def [symmetric]
        by (meson same_skeleton_trans)
      have i4: "repo_inv t4" using same_skeleton_inv [OF inv k4] .
      have m4: "m_buckets t4 = m_buckets s" and z4: "b_size (bkt t4 l) = b_size (bkt s l)"
        using k4 by (simp_all add: same_skeleton_def)
      have l4: "last_bucket_in_family t4 l = l" using same_skeleton_pointers(2) [OF k4] ll by simp
      have "remove_entity s k i = remove_entity_tail t4 r l"
        using True e nz
        by (simp add: remove_entity_def Let_def l_def [symmetric] kr t1_def t2_def t3_def t4_def)
      then show ?thesis
        using remove_entity_tail_preserves [OF i4, of r l] r lL m4 z4 l4 nz by simp
    qed
  qed
qed

subsection \<open>The sort loops keep the skeleton\<close>

fun state_of :: "'a outcome \<Rightarrow> repo" where
  "state_of (Ok x s) = s"
| "state_of (Throw e s) = s"

lemma skeleton_heap: "same_skeleton s s' \<Longrightarrow> heap s b \<noteq> None \<Longrightarrow> heap s' b \<noteq> None"
  by (simp add: same_skeleton_def)

lemma relocate_skeleton:
  assumes "heap s (fst dst) \<noteq> None"
  shows "same_skeleton s (relocate s dst src e)"
proof -
  let ?c = "copy_fields s (fst dst) (snd dst) (fst src) (snd src)"
  let ?g = "change_entity_bucket ?c (fst dst) e (snd dst)"
  have 1: "same_skeleton s ?c" using copy_fields_skeleton [OF assms] .
  have 12: "same_skeleton s ?g"
    using same_skeleton_trans [OF 1 change_entity_bucket_skeleton] .
  have "heap ?g (fst dst) \<noteq> None" using skeleton_heap [OF 12 assms] .
  from same_skeleton_trans [OF 12 replace_entity_skeleton [OF this]]
  show ?thesis by (simp add: relocate_def)
qed

lemma displace_skeleton:
  assumes "heap s (fst vacant) \<noteq> None"
  shows "same_skeleton s (displace s vacant slot)"
  using relocate_skeleton [OF assms] same_skeleton_refl
  by (simp add: displace_def split: option.splits)

lemma sort_step_skeleton:
  assumes b: "heap s (fst slot) \<noteq> None" and v: "heap s (fst vacant) \<noteq> None"
  shows "same_skeleton s (state_of (sort_step s vacant flag slot target))
       \<and> (\<forall>res s'. sort_step s vacant flag slot target = Ok res s' \<longrightarrow>
             heap s' (fst (fst res)) \<noteq> None)"
proof (cases "slot_entity s slot = Some target")
  case True
  then show ?thesis
    using v propagate_skeleton [of s target] same_skeleton_refl [of s]
    by (auto simp: sort_step_def Let_def dest: skeleton_heap)
next
  case False
  define s1 where "s1 = displace s vacant slot"
  have k1: "same_skeleton s s1" unfolding s1_def by (rule displace_skeleton [OF v])
  define nv where "nv = entity_bucket s1 target"
  show ?thesis
  proof (cases "heap s1 (fst nv) = None \<or> \<not> snd nv < length (b_entities (bkt s1 (fst nv)))")
    case True
    then have "sort_step s vacant flag slot target = Throw UndefinedBehaviour s1"
      using False by (simp add: sort_step_def Let_def s1_def nv_def)
    then show ?thesis using k1 by simp
  next
    case ok: False
    define s2 where "s2 = replace_entity s1 (fst nv) (snd nv) None"
    define s3 where "s3 = relocate s2 slot nv target"
    have k2: "same_skeleton s1 s2" unfolding s2_def using ok by (intro replace_entity_skeleton) simp
    have k12: "same_skeleton s s2" using same_skeleton_trans [OF k1 k2] .
    have "heap s2 (fst slot) \<noteq> None" using skeleton_heap [OF k12 b] .
    then have k3: "same_skeleton s2 s3" unfolding s3_def by (rule relocate_skeleton)
    have k6: "same_skeleton s (internal_propagate_relocation s3 target)"
      using same_skeleton_trans [OF same_skeleton_trans [OF k12 k3] propagate_skeleton] .
    have res: "sort_step s vacant flag slot target =
          Ok (nv, True) (internal_propagate_relocation s3 target)"
      using False ok by (simp add: sort_step_def Let_def s1_def nv_def s2_def s3_def)
    have "heap s (fst nv) \<noteq> None"
      using ok skeleton_heap [OF same_skeleton_sym [OF k1]] by blast
    then have "heap (internal_propagate_relocation s3 target) (fst nv) \<noteq> None"
      using skeleton_heap [OF k6] by simp
    then show ?thesis using res k6 by simp
  qed
qed

lemma sort_slots_skeleton:
  "\<forall>z \<in> set zs. heap s (fst (fst z)) \<noteq> None \<Longrightarrow> heap s (fst vacant) \<noteq> None \<Longrightarrow>
   same_skeleton s (state_of (sort_slots s vacant flag zs))"
proof (induction zs arbitrary: s vacant flag)
  case Nil
  then show ?case by (simp add: same_skeleton_refl)
next
  case (Cons z zs)
  obtain slot target where z: "z = (slot, target)" by (cases z)
  have b: "heap s (fst slot) \<noteq> None" using Cons.prems(1) z by simp
  note st = sort_step_skeleton [OF b Cons.prems(2), of flag target]
  show ?case
  proof (cases "sort_step s vacant flag slot target")
    case (Throw e s')
    then show ?thesis using st z by simp
  next
    case (Ok res s')
    obtain v' f' where res: "res = (v', f')" by (cases res)
    have k: "same_skeleton s s'" and hv: "heap s' (fst v') \<noteq> None"
      using st Ok res by auto
    have "\<forall>z \<in> set zs. heap s' (fst (fst z)) \<noteq> None"
      using Cons.prems(1) skeleton_heap [OF k] by simp
    from Cons.IH [OF this hv, of f'] have "same_skeleton s' (state_of (sort_slots s' v' f' zs))" .
    then have "same_skeleton s (state_of (sort_slots s' v' f' zs))"
      using k same_skeleton_trans by blast
    then show ?thesis using Ok res z by simp
  qed
qed

lemma family_slots_bucket: "z \<in> set (family_slots s bs) \<Longrightarrow> fst z \<in> set bs"
  by (auto simp: family_slots_def)

lemma sort_family_body_skeleton:
  assumes v: "heap s v \<noteq> None"
    and al: "\<forall>b \<in> set (m_buckets s ! r). heap s b \<noteq> None"
  shows "same_skeleton s (state_of (sort_family_body s r bk v vi))
       \<and> (\<forall>ek s'. sort_family_body s r bk v vi = Ok ek s' \<longrightarrow>
             ek = find_family_end (m_buckets s ! r) bk v \<and> ek \<le> length (m_buckets s ! r))"
proof -
  define s1 where "s1 = replace_entity s v vi None"
  define L where "L = m_buckets s ! r"
  define ek where "ek = find_family_end L bk v"
  define slots where "slots = family_slots s1 (take (ek - bk) (drop bk L))"
  define ents where "ents = sort (map the (map (slot_entity s1) slots))"
  have k1: "same_skeleton s s1" unfolding s1_def by (rule replace_entity_skeleton [OF v])
  have m1: "m_buckets s1 ! r = L" using k1 by (simp add: same_skeleton_def L_def)
  have body: "sort_family_body s r bk v vi =
     (if length L < ek then Throw UndefinedBehaviour s1
      else if None \<in> set (map (slot_entity s1) slots) then Throw UndefinedBehaviour s1
      else (case sort_slots s1 (v, vi) False (zip slots ents) of
              Throw e s' \<Rightarrow> Throw e s'
            | Ok r s2 \<Rightarrow> Ok ek s2))"
    unfolding sort_family_body_def Let_def
    unfolding s1_def [symmetric] m1
    unfolding ek_def [symmetric]
    unfolding slots_def [symmetric]
    unfolding ents_def [symmetric]
    by (rule refl)
  have "\<forall>z \<in> set (zip slots ents). heap s1 (fst (fst z)) \<noteq> None"
  proof
    fix z assume "z \<in> set (zip slots ents)"
    then have "fst z \<in> set slots" by (metis in_set_zipE prod.collapse)
    then have "fst (fst z) \<in> set (take (ek - bk) (drop bk L))"
      unfolding slots_def by (rule family_slots_bucket)
    then have "fst (fst z) \<in> set L" by (meson in_set_takeD in_set_dropD)
    then show "heap s1 (fst (fst z)) \<noteq> None"
      using al skeleton_heap [OF k1] L_def by blast
  qed
  moreover have "heap s1 (fst (v, vi)) \<noteq> None" using skeleton_heap [OF k1 v] by simp
  ultimately have "same_skeleton s1 (state_of (sort_slots s1 (v, vi) False (zip slots ents)))"
    by (rule sort_slots_skeleton)
  then have k2: "same_skeleton s (state_of (sort_slots s1 (v, vi) False (zip slots ents)))"
    using k1 same_skeleton_trans by blast
  show ?thesis
    unfolding body using k1 k2
    by (cases "sort_slots s1 (v, vi) False (zip slots ents)") (auto simp: L_def ek_def)
qed

subsection \<open>The scratch bucket of the sort\<close>

text \<open>The part ordinals that the sort reads back from a bucket key.\<close>

lemma key_ok_make_key:
  assumes "key_ok key"
  shows "make_key (take (unat (hd key - 1)) (tl key)) c = butlast key @ [c]"
proof -
  obtain h t where key: "key = h # t" using assms by (cases key) (auto simp: key_ok_def)
  have lt: "length t \<ge> 1" and uh: "unat h = length t"
    using assms key by (simp_all add: key_ok_def)
  then have "h \<noteq> 0" by (metis One_nat_def not_one_le_zero unat_0)
  then have "unat (h - 1) = length t - 1" using uh by (simp add: unat_minus_one)
  then have tk: "take (unat (hd key - 1)) (tl key) = butlast t"
    using key by (simp add: butlast_conv_take)
  have "(of_nat (length (butlast t)) + 1 :: u32) = of_nat (length t)"
    using lt by (metis Suc_pred' add.commute length_butlast less_eq_Suc_le of_nat_Suc One_nat_def)
  also have "\<dots> = h" using uh [symmetric] by simp
  finally have "(of_nat (length (butlast t)) + 1 :: u32) = h" .
  moreover have "t \<noteq> []" using lt by auto
  ultimately show ?thesis using tk key by (simp add: make_key_def)
qed

lemma find_last_existing:
  assumes inv: "rank_inv s r" and cm: "counters_below_max s r"
    and b: "b \<in> set (m_buckets s ! r)"
    and eq: "butlast (make_key p (- 1)) = butlast (b_key (bkt s b))"
  shows "find_last_bucket s r p = Some (last_bucket_in_family s b)"
proof (cases "find_last_bucket s r p")
  case None
  then show ?thesis using find_last_None_no_family [OF inv cm None b] eq by simp
next
  case (Some lb)
  note f = find_last_bucket_Some [OF Some]
  have lbL: "lb \<in> set (m_buckets s ! r)" using f by (meson in_set_takeD)
  have "butlast (b_key (bkt s lb)) = butlast (make_key p (- 1))" using f by (rule_tac conjunct2 [THEN conjunct2, THEN conjunct2])
  then have "butlast (b_key (bkt s lb)) = butlast (b_key (bkt s b))" using eq by (rule trans)
  then have "last_bucket_in_family s lb = last_bucket_in_family s b"
    using family_same_last [OF inv lbL b] by simp
  then show ?thesis using find_last_is_family_last [OF inv cm Some] Some by simp
qed

lemma search_position_after_last:
  assumes inv: "rank_inv s r" and fl: "find_last_bucket s r p = Some lb"
  shows "search_position s r p = Suc (lower_bound s (m_buckets s ! r) (b_key (bkt s lb)))"
proof -
  note f = find_last_bucket_Some [OF fl]
  let ?ik = "search_position s r p" and ?L = "m_buckets s ! r"
  have le: "?ik \<le> length ?L" by (simp add: search_position_def lower_bound_le)
  then have "?ik - 1 < length ?L" using f by arith
  then have "lower_bound s ?L (b_key (bkt s (?L ! (?ik - 1)))) = ?ik - 1"
    using lower_bound_self [OF rank_inv_sorted [OF inv]] by blast
  then show ?thesis using f by simp
qed

lemma destroyed_fields:
  "m_buckets (destroyed s r b) =
     (m_buckets s)[r := take (lower_bound s (m_buckets s ! r) (b_key (bkt s b))) (m_buckets s ! r) @
                        drop (Suc (lower_bound s (m_buckets s ! r) (b_key (bkt s b)))) (m_buckets s ! r)]"
  "next_addr (destroyed s r b) = next_addr s"
  "mem_avail (destroyed s r b) = Suc (mem_avail s)"
  "m_bucket_capacity (destroyed s r b) = m_bucket_capacity s"
  "sizeof_entity_ptr (destroyed s r b) = sizeof_entity_ptr s"
  "entity_bucket (destroyed s r b) = entity_bucket s"
  "trace (destroyed s r b) = trace s"
  "heap (destroyed s r b) b = None"
  by (simp_all add: destroyed_def Let_def repo_simps set_last_bucket_in_family_def)

lemma destroyed_bucket:
  assumes "x \<noteq> b"
  shows "b_key (bkt (destroyed s r b) x) = b_key (bkt s x)"
    "b_size (bkt (destroyed s r b) x) = b_size (bkt s x)"
    "b_capacity (bkt (destroyed s r b) x) = b_capacity (bkt s x)"
    "b_entity_rank (bkt (destroyed s r b) x) = b_entity_rank (bkt s x)"
    "b_first (bkt (destroyed s r b) x) = b_first (bkt s x)"
    "b_entities (bkt (destroyed s r b) x) = b_entities (bkt s x)"
    "b_field_data (bkt (destroyed s r b) x) = b_field_data (bkt s x)"
    "b_field_map (bkt (destroyed s r b) x) = b_field_map (bkt s x)"
    "heap s (first_bucket_in_family s b) \<noteq> None \<Longrightarrow>
       heap (destroyed s r b) x = None \<longleftrightarrow> heap s x = None"
  using assms
  by (auto simp: destroyed_def Let_def repo_simps set_last_bucket_in_family_def)

lemma destroyed_last:
  assumes "x \<noteq> b"
  shows "b_last (bkt (destroyed s r b) x) =
     (if x = first_bucket_in_family s b then
        (take (lower_bound s (m_buckets s ! r) (b_key (bkt s b))) (m_buckets s ! r) @
         drop (Suc (lower_bound s (m_buckets s ! r) (b_key (bkt s b)))) (m_buckets s ! r))
          ! (lower_bound s (m_buckets s ! r) (b_key (bkt s b)) - 1)
      else b_last (bkt s x))"
  using assms
  by (auto simp: destroyed_def Let_def repo_simps set_last_bucket_in_family_def)

end
